theory Spec2Isabelle
  imports Main "HOL-Library.AList"
begin

section \<open>The message component of tdesign-react (src/message/Message.tsx)\<close>

text \<open>
  The module keeps two module-level variables (\<open>MessageList\<close>, \<open>keyIndex\<close>) and
  works on the document, on React roots and on the timers of the event loop. All of
  these are fields of one record \<open>world\<close> that every operation takes and returns.
  A call that fails, by throwing or by returning a promise that is rejected, is the
  \<open>Inl\<close> branch of a sum.
\<close>

subsection \<open>JavaScript values\<close>

text \<open>
  A callback supplied by the caller is opaque, with two exceptions for a handler of
  \<open>onDurationEnd\<close>: \<open>CallsClose\<close> is \<open>({ close }) => close()\<close>, which calls the
  property \<open>close\<close> of its argument, and \<open>CallsArg\<close> is \<open>(close) => close()\<close>,
  which calls its argument. An opaque callback returns and does nothing to the message
  system. The number is a label.
\<close>

datatype userfn = Opaque nat | CallsClose nat | CallsArg nat

text \<open>
  Numbers are integers (milliseconds, z-indices); \<open>NaN\<close> and fractions are not
  modelled. \<open>VReactElement\<close> is what \<open>React.createElement\<close> returns,
  \<open>VDomElement i\<close> the DOM element with identity \<open>i\<close>.
\<close>

datatype jsval =
    VUndefined
  | VNull
  | VBool bool
  | VNum int
  | VStr string
  | VFun userfn
  | VDomElement nat
  | VReactElement
  | VArray "jsval list"
  | VObject "(string \<times> jsval) list"

text \<open>\<open>!!v\<close>\<close>

fun truthy :: "jsval \<Rightarrow> bool" where
  "truthy VUndefined = False"
| "truthy VNull = False"
| "truthy (VBool b) = b"
| "truthy (VNum n) = (n \<noteq> 0)"
| "truthy (VStr s) = (s \<noteq> [])"
| "truthy (VFun f) = True"
| "truthy (VDomElement i) = True"
| "truthy VReactElement = True"
| "truthy (VArray vs) = True"
| "truthy (VObject fs) = True"

text \<open>\<open>a || b\<close>\<close>

definition jsOr :: "jsval \<Rightarrow> jsval \<Rightarrow> jsval" where
  "jsOr a b = (if truthy a then a else b)"

text \<open>\<open>typeof v === 'number'\<close> and \<open>typeof v === 'function'\<close>\<close>

fun isNumber :: "jsval \<Rightarrow> bool" where
  "isNumber (VNum n) = True"
| "isNumber v = False"

fun isFunction :: "jsval \<Rightarrow> bool" where
  "isFunction (VFun f) = True"
| "isFunction v = False"

text \<open>
  \<open>Object.prototype.toString.call(v)\<close>. A React element is an ordinary object
  (\<open>$$typeof\<close>, \<open>type\<close>, \<open>props\<close>, ...), so its tag is \<open>[object Object]\<close>.
\<close>

fun toStringTag :: "jsval \<Rightarrow> string" where
  "toStringTag VUndefined = ''[object Undefined]''"
| "toStringTag VNull = ''[object Null]''"
| "toStringTag (VBool b) = ''[object Boolean]''"
| "toStringTag (VNum n) = ''[object Number]''"
| "toStringTag (VStr s) = ''[object String]''"
| "toStringTag (VFun f) = ''[object Function]''"
| "toStringTag (VDomElement i) = ''[object HTMLDivElement]''"
| "toStringTag VReactElement = ''[object Object]''"
| "toStringTag (VArray vs) = ''[object Array]''"
| "toStringTag (VObject fs) = ''[object Object]''"

text \<open>\<open>String(n)\<close> for an index \<open>n\<close>, and the indexed properties of a list of values.\<close>

fun showNat :: "nat \<Rightarrow> string" where
  "showNat n =
     (if n < 10 then [''0123456789'' ! n]
      else showNat (n div 10) @ [''0123456789'' ! (n mod 10)])"

fun indexed :: "nat \<Rightarrow> jsval list \<Rightarrow> (string \<times> jsval) list" where
  "indexed i [] = []"
| "indexed i (v # vs) = (showNat i, v) # indexed (i + 1) vs"

text \<open>
  The own enumerable properties of a value, as an object spread \<open>{...v}\<close> copies
  them, and a property read \<open>v.name\<close>. In \<open>VObject fs\<close> the first pair with a given
  name is the property. An array and a string have their elements and characters under
  the indices; numbers, booleans, \<open>null\<close>, \<open>undefined\<close> and functions have none. The
  module spreads configuration objects and \<open>offset\<close>, and reads \<open>content\<close> of a
  value whose tag is \<open>[object Object]\<close>; a React element has no such property, and
  neither a React element nor a DOM element is spread by the module when it is used
  with the declared types.
\<close>

fun ownProps :: "jsval \<Rightarrow> (string \<times> jsval) list" where
  "ownProps (VObject fs) = fs"
| "ownProps (VArray vs) = indexed 0 vs"
| "ownProps (VStr s) = indexed 0 (map (\<lambda>c. VStr [c]) s)"
| "ownProps v = []"

definition getField :: "(string \<times> jsval) list \<Rightarrow> string \<Rightarrow> jsval" where
  "getField fs name = (case map_of fs name of None \<Rightarrow> VUndefined | Some v \<Rightarrow> v)"

definition getProp :: "jsval \<Rightarrow> string \<Rightarrow> jsval" where
  "getProp v name = getField (ownProps v) name"

text \<open>\<open>React.isValidElement(v)\<close>\<close>

fun isValidElement :: "jsval \<Rightarrow> bool" where
  "isValidElement VReactElement = True"
| "isValidElement v = False"

text \<open>
  The delay that \<open>window.setTimeout(f, v)\<close> uses. The host converts \<open>v\<close> to a signed
  32-bit integer: a number is taken modulo \<open>2^32\<close> into the range from \<open>-2^31\<close> to
  \<open>2^31 - 1\<close>, and a negative result counts as 0. So a number from 0 to \<open>2^31 - 1\<close> is
  the delay as it is, and \<open>2^31\<close> (about 24.8 days) is the delay 0. \<open>undefined\<close>
  (\<open>NaN\<close>) and \<open>null\<close> give 0, a boolean 0 or 1. Strings, arrays and objects are
  outside the declared type \<open>number\<close> of \<open>duration\<close>; the model gives them the
  delay of \<open>NaN\<close>.
\<close>

definition toInt32 :: "int \<Rightarrow> int" where
  "toInt32 n = (let m = n mod 2 ^ 32 in if m < 2 ^ 31 then m else m - 2 ^ 32)"

fun delayOf :: "jsval \<Rightarrow> nat" where
  "delayOf (VNum n) = nat (toInt32 n)"
| "delayOf (VBool b) = (if b then 1 else 0)"
| "delayOf v = 0"

text \<open>
  What React can render as a child: text, numbers, elements, and arrays of such;
  \<open>null\<close>, \<open>undefined\<close> and booleans render as nothing, and so does a function (with
  a warning). An object that is not a React element, a DOM element among them, cannot be
  rendered: React throws \<open>Objects are not valid as a React child\<close>. A React element
  is taken to render without throwing.
\<close>

fun renderable :: "jsval \<Rightarrow> bool" where
  "renderable (VObject fs) = False"
| "renderable (VDomElement i) = False"
| "renderable (VArray vs) = (\<forall>v \<in> set vs. renderable v)"
| "renderable v = True"

text \<open>
  What React accepts as the \<open>style\<close> of a \<open>div\<close>: \<open>null\<close>, \<open>undefined\<close> or a
  value whose \<open>typeof\<close> is \<open>'object'\<close>. For anything else it throws. What the host
  does with the properties of a style object is not modelled: they are taken to be
  names of style properties.
\<close>

fun styleOk :: "jsval \<Rightarrow> bool" where
  "styleOk (VBool b) = False"
| "styleOk (VNum n) = False"
| "styleOk (VStr s) = False"
| "styleOk (VFun f) = False"
| "styleOk v = True"

text \<open>
  What React accepts as the \<open>ref\<close> of an element that nothing owns: a function, a
  ref object or \<open>null\<close> (\<open>undefined\<close> is no ref at all). For a string, a number or
  a boolean it throws.
\<close>

fun refOk :: "jsval \<Rightarrow> bool" where
  "refOk (VBool b) = False"
| "refOk (VNum n) = False"
| "refOk (VStr s) = False"
| "refOk v = True"

subsection \<open>Constants of the module and of \<open>./const\<close>\<close>

text \<open>
  \<open>./const\<close> is not part of the sources at hand. \<open>prefixWrapper\<close> and
  \<open>PlacementOffset\<close> are therefore parameters, collected in a record that every
  operation using them takes.
\<close>

record env =
  prefixWrapper :: string
  PlacementOffset :: "(string \<times> (string \<times> string) list) list"

text \<open>
  Modelled from the spec: \<open>ThemeList\<close> of \<open>./const\<close>, the six theme tags
  (they are also the keys of \<open>IconMap\<close> in the source).
\<close>

datatype theme = Info | Success | Warning | Error | Question | Loading

fun themeName :: "theme \<Rightarrow> string" where
  "themeName Info = ''info''"
| "themeName Success = ''success''"
| "themeName Warning = ''warning''"
| "themeName Error = ''error''"
| "themeName Question = ''question''"
| "themeName Loading = ''loading''"

definition ThemeList :: "theme list" where
  "ThemeList = [Info, Success, Warning, Error, Question, Loading]"

definition Top :: string where
  "Top = ''top''"

definition globalConfig_zIndex :: int where
  "globalConfig_zIndex = 6000"

definition globalConfig_duration :: int where
  "globalConfig_duration = 3000"

definition globalConfig_top :: string where
  "globalConfig_top = ''32''"

subsection \<open>The document\<close>

text \<open>
  An element has an identity, its class tokens, its inline style and its children in
  document order. A style value is a literal string or \<open>String(v)\<close> of a value, kept
  as it is. What React renders inside the \<open>div\<close> of a message is the business of the
  render host and is not part of the tree: it lies below the message's \<open>div\<close>, hence
  below the container and after it in document order.
\<close>

datatype styleval = Lit string | StringOf jsval

datatype elem = Elem (eid: nat) (className: "string list")
  (estyle: "(string \<times> styleval) list") (kids: "elem list")

fun ids :: "elem \<Rightarrow> nat list" and idsL :: "elem list \<Rightarrow> nat list" where
  "ids (Elem i c s ks) = i # idsL ks"
| "idsL [] = []"
| "idsL (k # ks) = ids k @ idsL ks"

text \<open>
  \<open>e.querySelectorAll('.' + cls)\<close>: the descendants of \<open>e\<close> (not \<open>e\<close> itself) that
  carry the class, in document order.
\<close>

fun matches :: "string \<Rightarrow> elem \<Rightarrow> elem list"
  and matchesL :: "string \<Rightarrow> elem list \<Rightarrow> elem list" where
  "matches cls (Elem i c s ks) =
     (if cls \<in> set c then [Elem i c s ks] else []) @ matchesL cls ks"
| "matchesL cls [] = []"
| "matchesL cls (k # ks) = matches cls k @ matchesL cls ks"

definition querySelectorAll :: "string \<Rightarrow> elem \<Rightarrow> elem list" where
  "querySelectorAll cls e = matchesL cls (kids e)"

text \<open>
  \<open>p.appendChild(d)\<close> for a \<open>d\<close> that is in no tree yet (the module only appends
  elements it has just created), with \<open>p\<close> given by its identity.
\<close>

fun appendChild :: "nat \<Rightarrow> elem \<Rightarrow> elem \<Rightarrow> elem"
  and appendChildL :: "nat \<Rightarrow> elem \<Rightarrow> elem list \<Rightarrow> elem list" where
  "appendChild p d (Elem i c s ks) =
     (if i = p then Elem i c s (ks @ [d]) else Elem i c s (appendChildL p d ks))"
| "appendChildL p d [] = []"
| "appendChildL p d (k # ks) = appendChild p d k # appendChildL p d ks"

text \<open>
  \<open>m.remove()\<close> seen from the root of the document: the element with identity \<open>m\<close>
  leaves its parent, with everything below it. On an element that is not in the
  document nothing happens.
\<close>

fun removeNode :: "nat \<Rightarrow> elem \<Rightarrow> elem"
  and removeNodeL :: "nat \<Rightarrow> elem list \<Rightarrow> elem list" where
  "removeNode m (Elem i c s ks) = Elem i c s (removeNodeL m ks)"
| "removeNodeL m [] = []"
| "removeNodeL m (k # ks) =
     (if eid k = m then removeNodeL m ks else removeNode m k # removeNodeL m ks)"

text \<open>The children of the element with identity \<open>p\<close>, if it is in the tree.\<close>

fun kidsOf :: "nat \<Rightarrow> elem \<Rightarrow> nat list option"
  and kidsOfL :: "nat \<Rightarrow> elem list \<Rightarrow> nat list option" where
  "kidsOf p (Elem i c s ks) = (if i = p then Some (map eid ks) else kidsOfL p ks)"
| "kidsOfL p [] = None"
| "kidsOfL p (k # ks) = (case kidsOf p k of Some r \<Rightarrow> Some r | None \<Rightarrow> kidsOfL p ks)"

subsection \<open>The state of the page\<close>

text \<open>
  \<open>message.close\<close> is a closure over the \<open>div\<close> that \<open>renderElement\<close> created;
  \<open>CloseOp d\<close> is that closure. A handle is the object \<open>{close, key}\<close>.
\<close>

datatype closeOp = CloseOp nat

record handle =
  close :: closeOp
  key :: nat

text \<open>
  What the module hands to a callback: a function of its own, which is always a close
  operation (\<open>Fn\<close>), or an object whose properties are such functions (\<open>Obj\<close>).
\<close>

datatype cbArg = Fn closeOp | Obj "(string \<times> closeOp) list"

text \<open>
  What a caller can observe of the callbacks: \<open>onDurationEnd\<close> was invoked for the
  message mounted in \<open>div\<close> \<open>d\<close> with the given argument, \<open>onClosed\<close> was invoked
  for it.
\<close>

datatype obs = CbDurationEnd nat cbArg | CbClosed nat

text \<open>
  A mounted \<open>Message\<close>: its props (without \<open>close\<close>, which is always the closure
  \<open>() => message.close()\<close> of its own handle) and \<open>timerRef.current\<close>.
\<close>

record mounted =
  props :: "(string \<times> jsval) list"
  timerRef :: nat

text \<open>
  A pending timeout: its id, the time it is due, and what its callback closes over,
  the \<open>div\<close> of the message and the message's \<open>onDurationEnd\<close>.
\<close>

record timer =
  tid :: nat
  due :: nat
  owner :: nat
  cbDurationEnd :: jsval

record world =
  now :: nat
  body :: elem
  nextId :: nat
  roots :: "(nat \<times> mounted) list"
  timers :: "timer list"
  nextTimer :: nat
  MessageList :: "handle list"
  keyIndex :: nat
  trace :: "obs list"

text \<open>A freshly loaded page: an empty \<open>document.body\<close>, \<open>keyIndex = 1\<close>.\<close>

definition init :: world where
  "init = \<lparr> now = 0, body = Elem 0 [] [] [], nextId = 1, roots = [], timers = [],
            nextTimer = 1, MessageList = [], keyIndex = 1, trace = [] \<rparr>"

text \<open>
  How a call fails. \<open>TypeError\<close>: it throws a \<open>TypeError\<close>, before it has changed
  anything. \<open>Rejected w\<close>: it returns a promise that is rejected, because
  \<open>ReactDOM.render\<close> threw inside the executor of the promise; \<open>w\<close> is the page
  that is left then.
\<close>

datatype error = TypeError | Rejected world

subsection \<open>Timers\<close>

text \<open>\<open>clearTimeout(id)\<close>\<close>

definition clearTimeout :: "nat \<Rightarrow> world \<Rightarrow> world" where
  "clearTimeout i w = w\<lparr> timers := filter (\<lambda>t. tid t \<noteq> i) (timers w) \<rparr>"

text \<open>
  \<open>startDuration\<close> of the message mounted in \<open>d\<close>:
  \<open>clearTimeout(timerRef.current); timerRef.current = setTimeout(..., duration)\<close>.
\<close>

definition startDuration :: "nat \<Rightarrow> world \<Rightarrow> world" where
  "startDuration d w =
    (case map_of (roots w) d of
       None \<Rightarrow> w
     | Some inst \<Rightarrow>
        let w1 = clearTimeout (timerRef inst) w;
            t = \<lparr> tid = nextTimer w1,
                  due = now w1 + delayOf (getField (props inst) ''duration''),
                  owner = d,
                  cbDurationEnd = getField (props inst) ''onDurationEnd'' \<rparr>
        in w1\<lparr> timers := timers w1 @ [t],
               nextTimer := nextTimer w1 + 1,
               roots := AList.update d (inst\<lparr> timerRef := tid t \<rparr>) (roots w1) \<rparr>)"

subsection \<open>Mounting and unmounting\<close>

text \<open>
  The component \<open>Message\<close> mounts in \<open>div\<close> \<open>d\<close> and its effect runs, which starts
  the timer when \<open>typeof duration === 'number'\<close>. The module renders a message once,
  so the effect runs once, at mount (it is a passive effect; React has run it before
  anything else happens to the component).
\<close>

definition mountMessage :: "(string \<times> jsval) list \<Rightarrow> nat \<Rightarrow> world \<Rightarrow> world" where
  "mountMessage ps d w =
    (let w1 = w\<lparr> roots := AList.update d \<lparr> props = ps, timerRef = 0 \<rparr> (roots w) \<rparr>
     in if isNumber (getField ps ''duration'') then startDuration d w1 else w1)"

text \<open>
  \<open>ReactDOM.render(<Message ... />, div)\<close>, for an element with the props \<open>ps\<close>
  and the ref \<open>r\<close>. The component renders
  \<open><div style={style}> <MessageIcon/> {children} <MessageClose/> </div>\<close>. When
  the ref is not accepted, \<open>children\<close> cannot be rendered or \<open>style\<close> is not
  accepted, React throws, nothing is mounted and no effect runs: that is \<open>None\<close>.
  Otherwise the component mounts. The props \<open>theme\<close>, \<open>closeBtn\<close> and
  \<open>className\<close> are taken to have their declared types, with which the icon, the
  close button and the class names render.
\<close>

definition ReactDOM_render ::
  "(string \<times> jsval) list \<Rightarrow> jsval \<Rightarrow> nat \<Rightarrow> world \<Rightarrow> world option" where
  "ReactDOM_render ps r d w =
    (if refOk r \<and> renderable (getField ps ''children'') \<and> styleOk (getField ps ''style'')
     then Some (mountMessage ps d w)
     else None)"

text \<open>
  \<open>ReactDOM.unmountComponentAtNode(div)\<close>: when a component is mounted in \<open>div\<close>, it
  is unmounted and the cleanup of its effect runs, \<open>clearTimeout(timerRef.current)\<close>
  and then \<open>onClosed()\<close> (\<open>noop\<close> when the prop is \<open>undefined\<close>, skipped when it is
  not a function). When nothing is mounted there, nothing happens. The cleanup is part
  of the unmount, as in React 16.
\<close>

definition unmountComponentAtNode :: "nat \<Rightarrow> world \<Rightarrow> world" where
  "unmountComponentAtNode d w =
    (case map_of (roots w) d of
       None \<Rightarrow> w
     | Some inst \<Rightarrow>
        let w1 = clearTimeout (timerRef inst) (w\<lparr> roots := AList.delete d (roots w) \<rparr>);
            onClosed = getField (props inst) ''onClosed''
        in if onClosed = VUndefined \<or> isFunction onClosed
           then w1\<lparr> trace := trace w1 @ [CbClosed d] \<rparr>
           else w1)"

text \<open>\<open>message.close\<close>: \<open>ReactDOM.unmountComponentAtNode(div); div.remove()\<close>\<close>

definition msgClose :: "nat \<Rightarrow> world \<Rightarrow> world" where
  "msgClose d w =
    (let w1 = unmountComponentAtNode d w
     in w1\<lparr> body := removeNode d (body w1) \<rparr>)"

fun callClose :: "closeOp \<Rightarrow> world \<Rightarrow> world" where
  "callClose (CloseOp d) w = msgClose d w"

subsection \<open>\<open>createContainer\<close> and \<open>renderElement\<close>\<close>

fun startsWith :: "string \<Rightarrow> string \<Rightarrow> bool" where
  "startsWith s [] = True"
| "startsWith [] (c # t) = False"
| "startsWith (a # s) (c # t) = (a = c \<and> startsWith s t)"

text \<open>\<open>s.includes(t)\<close>\<close>

fun strIncludes :: "string \<Rightarrow> string \<Rightarrow> bool" where
  "strIncludes [] t = (t = [])"
| "strIncludes (a # s) t = (startsWith (a # s) t \<or> strIncludes s t)"

text \<open>
  The style of a new container: \<open>zIndex\<close>, then every entry of
  \<open>PlacementOffset[placement]\<close>, then \<open>top\<close> when the placement includes \<open>'top'\<close>.
\<close>

definition containerStyle ::
  "jsval \<Rightarrow> string \<Rightarrow> (string \<times> string) list \<Rightarrow> (string \<times> styleval) list" where
  "containerStyle zIndex placement offs =
    (let s1 = [(''zIndex'', StringOf zIndex)];
         s2 = foldl (\<lambda>s (k, v). AList.update k (Lit v) s) s1 offs
     in if strIncludes placement Top
        then AList.update Top (Lit (globalConfig_top @ ''px'')) s2
        else s2)"

text \<open>
  \<open>createContainer\<close> returns the identity of the container. \<open>mountedDom\<close> is
  \<open>document.body\<close> unless \<open>React.isValidElement(attach)\<close>; a React element has no
  \<open>querySelectorAll\<close>, so the call on it throws. When a container has to be made,
  \<open>Object.keys(PlacementOffset[placement])\<close> throws for a placement that is not a key
  of the table (a placement that is not a string is outside the declared type; the
  model throws for it as well).
\<close>

definition createContainer ::
  "env \<Rightarrow> (string \<times> jsval) list \<Rightarrow> world \<Rightarrow> error + (nat \<times> world)" where
  "createContainer K config w =
    (let attach = getField config ''attach'';
         zIndex = getField config ''zIndex'';
         placement = (if getField config ''placement'' = VUndefined then VStr Top
                      else getField config ''placement'')
     in if isValidElement attach then Inl TypeError
        else
          (case querySelectorAll (prefixWrapper K) (body w) of
             c # cs \<Rightarrow> Inr (eid c, w)
           | [] \<Rightarrow>
              (case placement of
                 VStr p \<Rightarrow>
                   (case map_of (PlacementOffset K) p of
                      None \<Rightarrow> Inl TypeError
                    | Some offs \<Rightarrow>
                        let el = Elem (nextId w) [prefixWrapper K] (containerStyle zIndex p offs) []
                        in Inr (nextId w,
                                w\<lparr> body := appendChild (eid (body w)) el (body w),
                                   nextId := nextId w + 1 \<rparr>))
               | _ \<Rightarrow> Inl TypeError)))"

text \<open>
  The props of \<open><Message theme style ref key {...config} close>{content}</Message>\<close>:
  the spread of \<open>config\<close> comes after \<open>theme\<close> and \<open>style\<close> and overrides them,
  \<open>close\<close> and the children come after the spread. React keeps \<open>ref\<close> and \<open>key\<close>
  to itself, and \<open>close\<close> is a closure of the module: the three are not in the list.
\<close>

definition messageProps ::
  "theme \<Rightarrow> jsval \<Rightarrow> (string \<times> jsval) list \<Rightarrow> (string \<times> jsval) list" where
  "messageProps th style config =
    AList.update ''children'' (getField config ''content'')
      (AList.delete ''close'' (AList.delete ''ref'' (AList.delete ''key''
        (AList.merge [(''theme'', VStr (themeName th)), (''style'', style)] config))))"

text \<open>
  The promise that \<open>renderElement\<close> returns when the render has succeeded. It is
  resolved by the \<open>ref\<close> callback when the component has mounted. A \<open>ref\<close> property
  in \<open>config\<close> replaces that callback (the spread of \<open>config\<close> comes after it), and
  then the promise stays pending. (A promise that is rejected is the failure
  \<open>Rejected\<close>.)
\<close>

datatype promise = Pending | Resolved handle

text \<open>
  \<open>style\<close>: \<open>{...offset, position: 'absolute', width: 'auto'}\<close> when \<open>offset\<close> is
  truthy, and \<open>{}\<close> otherwise.
\<close>

definition offsetStyle :: "jsval \<Rightarrow> jsval" where
  "offsetStyle offset =
    (if truthy offset
     then VObject (AList.merge (ownProps offset)
            [(''position'', VStr ''absolute''), (''width'', VStr ''auto'')])
     else VObject [])"

text \<open>
  \<open>renderElement\<close>. The container is resolved, the \<open>div\<close> is created and \<open>keyIndex\<close>
  is incremented before the promise is made. \<open>ReactDOM.render\<close>,
  \<open>container.appendChild(div)\<close> and \<open>MessageList.push(message)\<close> run inside the
  executor of the promise, in this order: when the render throws, the promise is
  rejected and the other two are skipped, so the \<open>div\<close> stays out of the document and
  the handle out of \<open>MessageList\<close>, while the container and \<open>keyIndex\<close> keep their
  changes. \<open>keyIndex\<close> is a JavaScript number; \<open>keyIndex + 1\<close> on the naturals is what
  \<open>keyIndex += 1\<close> computes as long as the counter is below \<open>2^53\<close>. The ref of
  the element is \<open>config.ref\<close> when \<open>config\<close> has one; without one it is the
  callback of the module, a function, for which \<open>undefined\<close> stands here.
\<close>

definition renderElement ::
  "env \<Rightarrow> theme \<Rightarrow> (string \<times> jsval) list \<Rightarrow> world \<Rightarrow> error + (promise \<times> world)" where
  "renderElement K th config w =
    (case createContainer K config w of
       Inl e \<Rightarrow> Inl e
     | Inr (container, w1) \<Rightarrow>
        let offset = getField config ''offset'';
            d = nextId w1;
            w2 = w1\<lparr> nextId := d + 1, keyIndex := keyIndex w1 + 1 \<rparr>;
            message = \<lparr> close = CloseOp d, key = keyIndex w2 \<rparr>;
            style = offsetStyle offset
        in case ReactDOM_render (messageProps th style config) (getField config ''ref'') d w2 of
             None \<Rightarrow> Inl (Rejected w2)
           | Some w3 \<Rightarrow>
               let w4 = w3\<lparr> body := appendChild container (Elem d [] [] []) (body w3) \<rparr>;
                   w5 = w4\<lparr> MessageList := MessageList w4 @ [message] \<rparr>
               in Inr (if ''ref'' \<in> set (map fst config) then Pending else Resolved message,
                       w5))"

subsection \<open>The factories, \<open>Message.close\<close> and \<open>Message.closeAll\<close>\<close>

definition isConfig :: "jsval \<Rightarrow> bool" where
  "isConfig content =
    (toStringTag content = ''[object Object]'' \<and> truthy (getProp content ''content''))"

text \<open>
  The configuration that \<open>Message[theme](content, duration)\<close> hands to
  \<open>renderElement\<close>. The parameter \<open>duration\<close> has the default
  \<open>globalConfig.duration\<close>, which applies when the argument is \<open>undefined\<close>.
\<close>

definition factoryConfig :: "jsval \<Rightarrow> jsval \<Rightarrow> (string \<times> jsval) list" where
  "factoryConfig content durationArg =
    (let duration = (if durationArg = VUndefined then VNum globalConfig_duration
                     else durationArg);
         config = (if isConfig content
                   then AList.merge [(''duration'', duration)] (ownProps content)
                   else [(''content'', content), (''duration'', duration)])
     in AList.update ''zIndex''
          (jsOr (getField config ''zIndex'') (VNum globalConfig_zIndex)) config)"

definition factory ::
  "env \<Rightarrow> theme \<Rightarrow> jsval \<Rightarrow> jsval \<Rightarrow> world \<Rightarrow> error + (promise \<times> world)" where
  "factory K th content durationArg w = renderElement K th (factoryConfig content durationArg) w"

text \<open>
  \<open>Message.close(promise)\<close>: \<open>close\<close> of the handle, once the promise is resolved
  (on a promise that is rejected the callback of \<open>then\<close> never runs).
\<close>

fun Message_close :: "promise \<Rightarrow> world \<Rightarrow> world" where
  "Message_close Pending w = w"
| "Message_close (Resolved h) w = callClose (close h) w"

text \<open>
  \<open>Message.closeAll\<close>. Every element of \<open>MessageList\<close> was made by \<open>renderElement\<close>,
  so its \<open>close\<close> is a function and the \<open>typeof\<close> test passes.
\<close>

definition closeAll :: "world \<Rightarrow> world" where
  "closeAll w = (foldl (\<lambda>v h. callClose (close h) v) w (MessageList w))\<lparr> MessageList := [] \<rparr>"

subsection \<open>Pointer events and the passing of time\<close>

text \<open>\<open>onMouseEnter\<close> and \<open>onMouseLeave\<close> of the message mounted in \<open>d\<close>.\<close>

definition mouseEnter :: "nat \<Rightarrow> world \<Rightarrow> world" where
  "mouseEnter d w =
    (case map_of (roots w) d of None \<Rightarrow> w | Some inst \<Rightarrow> clearTimeout (timerRef inst) w)"

definition mouseLeave :: "nat \<Rightarrow> world \<Rightarrow> world" where
  "mouseLeave d w = startDuration d w"

text \<open>
  A callback of the caller runs with the argument \<open>a\<close>. \<open>a.close()\<close> and \<open>a()\<close> throw
  a \<open>TypeError\<close> when what is called is not a function.
\<close>

fun callUser :: "userfn \<Rightarrow> cbArg \<Rightarrow> world \<Rightarrow> error + world" where
  "callUser (Opaque l) a w = Inr w"
| "callUser (CallsClose l) (Obj fs) w =
     (case map_of fs ''close'' of None \<Rightarrow> Inl TypeError | Some c \<Rightarrow> Inr (callClose c w))"
| "callUser (CallsClose l) (Fn c) w = Inl TypeError"
| "callUser (CallsArg l) (Fn c) w = Inr (callClose c w)"
| "callUser (CallsArg l) (Obj fs) w = Inl TypeError"

text \<open>
  The callback of a timeout, \<open>onDurationEnd({ close }); close()\<close>, where \<open>close\<close> is
  the prop \<open>() => message.close()\<close>. Calling an \<open>onDurationEnd\<close> that is neither
  \<open>undefined\<close> (then it is \<open>noop\<close>) nor a function throws, and so may the handler
  itself; then \<open>close()\<close> is not reached. An exception in the callback of a timeout
  goes to the host, and the event loop goes on.
\<close>

definition fire :: "timer \<Rightarrow> world \<Rightarrow> world" where
  "fire t w =
    (let d = owner t;
         arg = Obj [(''close'', CloseOp d)];
         called = w\<lparr> trace := trace w @ [CbDurationEnd d arg] \<rparr>
     in case cbDurationEnd t of
          VUndefined \<Rightarrow> msgClose d called
        | VFun f \<Rightarrow>
            (case callUser f arg called of
               Inl e \<Rightarrow> called
             | Inr w1 \<Rightarrow> msgClose d w1)
        | _ \<Rightarrow> w)"

text \<open>
  The pending timeout that runs next, among those due by time \<open>T\<close>: the earliest,
  and of two that are due together the one set first.
\<close>

definition earlier :: "timer \<Rightarrow> timer \<Rightarrow> bool" where
  "earlier a b = (due a < due b \<or> (due a = due b \<and> tid a \<le> tid b))"

fun nextDue :: "nat \<Rightarrow> timer list \<Rightarrow> timer option" where
  "nextDue T [] = None"
| "nextDue T (t # ts) =
    (if due t \<le> T
     then (case nextDue T ts of
             None \<Rightarrow> Some t
           | Some u \<Rightarrow> Some (if earlier t u then t else u))
     else nextDue T ts)"

text \<open>
  Time passes up to \<open>T\<close>: the timeouts that are due run one after the other, each
  taken off the pending ones before its callback runs.
\<close>

function runTimers :: "nat \<Rightarrow> world \<Rightarrow> world" where
  "runTimers T w =
    (case nextDue T (timers w) of
       None \<Rightarrow> w\<lparr> now := max (now w) T \<rparr>
     | Some t \<Rightarrow>
         runTimers T
           (fire t (w\<lparr> timers := filter (\<lambda>u. tid u \<noteq> tid t) (timers w),
                       now := max (now w) (due t) \<rparr>)))"
  by pat_completeness auto
termination
proof (relation "measure (\<lambda>(T, w). length (timers w))")
  show "wf (measure (\<lambda>(T, w). length (timers w)))" by simp
next
  fix T :: nat and w :: world and t :: timer
  assume nd: "nextDue T (timers w) = Some t"
  have mem: "\<And>ts. nextDue T ts = Some t \<Longrightarrow> t \<in> set ts"
  proof -
    fix ts show "nextDue T ts = Some t \<Longrightarrow> t \<in> set ts"
      by (induction ts arbitrary: t) (auto split: if_splits option.splits)
  qed
  have unm: "\<And>d v. length (timers (unmountComponentAtNode d v)) \<le> length (timers v)"
    by (auto simp: unmountComponentAtNode_def clearTimeout_def Let_def split: option.splits)
  have cl: "\<And>d v. length (timers (msgClose d v)) \<le> length (timers v)"
    using unm by (simp add: msgClose_def Let_def)
  have cl2: "\<And>d v. length (timers (msgClose d (msgClose d v))) \<le> length (timers v)"
    using cl le_trans by blast
  have fr: "\<And>v. length (timers (fire t v)) \<le> length (timers v)"
  proof -
    fix v :: world
    let ?c = "v\<lparr> trace := trace v @ [CbDurationEnd (owner t) (Obj [(''close'', CloseOp (owner t))])] \<rparr>"
    have a: "length (timers (msgClose (owner t) ?c)) \<le> length (timers v)"
      using cl[of "owner t" ?c] by simp
    have b: "length (timers (msgClose (owner t) (msgClose (owner t) ?c))) \<le> length (timers v)"
      using cl2[of "owner t" ?c] by simp
    show "length (timers (fire t v)) \<le> length (timers v)"
    proof (cases "cbDurationEnd t")
      case (VFun f)
      then show ?thesis using a b by (cases f) (simp_all add: fire_def Let_def)
    qed (use a in \<open>simp_all add: fire_def Let_def\<close>)
  qed
  let ?w = "w\<lparr> timers := filter (\<lambda>u. tid u \<noteq> tid t) (timers w), now := max (now w) (due t) \<rparr>"
  have "length (filter (\<lambda>u. tid u \<noteq> tid t) (timers w)) < length (timers w)"
    using mem[OF nd] by (simp add: length_filter_less)
  moreover have "length (timers (fire t ?w)) \<le> length (timers ?w)" by (rule fr)
  ultimately show "((T, fire t ?w), (T, w)) \<in> measure (\<lambda>(T, w). length (timers w))"
    by simp
qed

definition elapse :: "nat \<Rightarrow> world \<Rightarrow> world" where
  "elapse n w = runTimers (now w + n) w"

subsection \<open>What can happen on the page\<close>

text \<open>
  A call of a factory (theme, first argument, second argument), a call of a handle's
  \<open>close\<close>, \<open>Message.closeAll()\<close>, the pointer entering or leaving the message
  mounted in a \<open>div\<close>, and time passing. A factory call that throws leaves the page as
  it was; one whose promise is rejected leaves the page that the rejection says.
\<close>

datatype event =
    Create theme jsval jsval
  | Close closeOp
  | CloseAll
  | MouseEnter nat
  | MouseLeave nat
  | Elapse nat

fun step :: "env \<Rightarrow> event \<Rightarrow> world \<Rightarrow> world" where
  "step K (Create th content durationArg) w =
     (case factory K th content durationArg w of
        Inl TypeError \<Rightarrow> w
      | Inl (Rejected w') \<Rightarrow> w'
      | Inr (p, w') \<Rightarrow> w')"
| "step K (Close c) w = callClose c w"
| "step K CloseAll w = closeAll w"
| "step K (MouseEnter d) w = mouseEnter d w"
| "step K (MouseLeave d) w = mouseLeave d w"
| "step K (Elapse n) w = elapse n w"

fun run :: "env \<Rightarrow> event list \<Rightarrow> world \<Rightarrow> world" where
  "run K [] w = w"
| "run K (e # es) w = run K es (step K e w)"

text \<open>
  The keys of the handles that a run of events hands to its callers, in the order of
  the calls.
\<close>

fun newKeys :: "env \<Rightarrow> event \<Rightarrow> world \<Rightarrow> nat list" where
  "newKeys K (Create th content durationArg) w =
     (case factory K th content durationArg w of
        Inl e \<Rightarrow> []
      | Inr (Pending, w') \<Rightarrow> []
      | Inr (Resolved h, w') \<Rightarrow> [key h])"
| "newKeys K e w = []"

fun issued :: "env \<Rightarrow> event list \<Rightarrow> world \<Rightarrow> nat list" where
  "issued K [] w = []"
| "issued K (e # es) w = newKeys K e w @ issued K es (step K e w)"

subsection \<open>Invariants\<close>

text \<open>A value that can be called where the component calls a callback: the prop is
  \<open>undefined\<close> (the default \<open>noop\<close> is called) or a function.\<close>

definition callable :: "jsval \<Rightarrow> bool" where
  "callable v = (v = VUndefined \<or> isFunction v)"

text \<open>
  An \<open>onDurationEnd\<close> that returns when it is called with the object \<open>{ close }\<close>:
  the prop is \<open>undefined\<close> (\<open>noop\<close> is called), an opaque function, or a function
  that calls the property \<open>close\<close> of its argument.
\<close>

fun takesObject :: "jsval \<Rightarrow> bool" where
  "takesObject VUndefined = True"
| "takesObject (VFun (Opaque l)) = True"
| "takesObject (VFun (CallsClose l)) = True"
| "takesObject v = False"

text \<open>The \<open>div\<close> a \<open>close\<close> closure closes over.\<close>

fun divOf :: "closeOp \<Rightarrow> nat" where
  "divOf (CloseOp d) = d"

text \<open>The messages, by their \<open>div\<close>, whose \<open>onClosed\<close> has been invoked, in order.\<close>

fun closedIds :: "obs list \<Rightarrow> nat list" where
  "closedIds [] = []"
| "closedIds (CbClosed d # tr) = d # closedIds tr"
| "closedIds (CbDurationEnd d a # tr) = closedIds tr"

text \<open>How often \<open>onClosed\<close> of the message mounted in \<open>d\<close> has been invoked.\<close>

definition timesClosed :: "nat \<Rightarrow> world \<Rightarrow> nat" where
  "timesClosed d w = count_list (trace w) (CbClosed d)"

text \<open>The \<open>div\<close>s of the handles in \<open>MessageList\<close>, in order.\<close>

definition registered :: "world \<Rightarrow> nat list" where
  "registered w = map (\<lambda>h. divOf (close h)) (MessageList w)"

text \<open>
  What holds of the callbacks on every page that the events of the module produce:
  no \<open>onClosed\<close> has run twice; a message whose \<open>onClosed\<close> has run is unmounted;
  the \<open>div\<close>s of mounted and of closed messages are older than the next element; the
  \<open>onClosed\<close> of a mounted message can be called; the handles in \<open>MessageList\<close> have
  different \<open>div\<close>s, each mounted or closed; and every mounted message is in
  \<open>MessageList\<close>.
\<close>

definition cbInv :: "world \<Rightarrow> bool" where
  "cbInv w \<longleftrightarrow>
     distinct (closedIds (trace w))
   \<and> (\<forall>d \<in> set (closedIds (trace w)). d < nextId w \<and> d \<notin> set (map fst (roots w)))
   \<and> (\<forall>p \<in> set (roots w). fst p < nextId w \<and> callable (getField (props (snd p)) ''onClosed''))
   \<and> distinct (map fst (roots w))
   \<and> distinct (registered w)
   \<and> (\<forall>d \<in> set (registered w).
         d \<in> set (map fst (roots w)) \<or> d \<in> set (closedIds (trace w)))
   \<and> (\<forall>d \<in> set (map fst (roots w)). d \<in> set (registered w))"

text \<open>
  A factory call respects the declared type of \<open>onClosed\<close> (a function, or absent).
\<close>

fun typedEvent :: "event \<Rightarrow> bool" where
  "typedEvent (Create th content durationArg) =
     callable (getField (factoryConfig content durationArg) ''onClosed'')"
| "typedEvent e = True"

text \<open>The props of the mounted messages.\<close>

definition rootProps :: "world \<Rightarrow> (nat \<times> (string \<times> jsval) list) list" where
  "rootProps w = map (\<lambda>p. (fst p, props (snd p))) (roots w)"

text \<open>
  What holds of the timers on every page that the events of the module produce:
  pending timeouts have different ids, positive and below the next id; each is the
  current timer (\<open>timerRef\<close>) of a mounted message, which owns it, and is due no later
  than that message's duration from now; the \<open>div\<close>s and timer ids that mounted
  messages hold are older than the next ones.
\<close>

definition tmInv :: "world \<Rightarrow> bool" where
  "tmInv w \<longleftrightarrow>
     distinct (map tid (timers w))
   \<and> distinct (map fst (roots w))
   \<and> 0 < nextTimer w
   \<and> (\<forall>t \<in> set (timers w).
         0 < tid t \<and> tid t < nextTimer w
       \<and> (case map_of (roots w) (owner t) of
             None \<Rightarrow> False
           | Some inst \<Rightarrow> timerRef inst = tid t
               \<and> due t \<le> now w + delayOf (getField (props inst) ''duration'')))
   \<and> (\<forall>p \<in> set (roots w). timerRef (snd p) < nextTimer w \<and> fst p < nextId w)"

text \<open>
  An event that neither closes the message mounted in \<open>d\<close> by hand or in bulk nor is
  the pointer leaving it.
\<close>

fun leavesAlone :: "nat \<Rightarrow> event \<Rightarrow> bool" where
  "leavesAlone d (MouseLeave d') = (d' \<noteq> d)"
| "leavesAlone d (Close c) = (c \<noteq> CloseOp d)"
| "leavesAlone d CloseAll = False"
| "leavesAlone d e = True"

text \<open>All elements of a tree, the root first, in document order.\<close>

fun nodes :: "elem \<Rightarrow> elem list" and nodesL :: "elem list \<Rightarrow> elem list" where
  "nodes (Elem i c s ks) = Elem i c s ks # nodesL ks"
| "nodesL [] = []"
| "nodesL (k # ks) = nodes k @ nodesL ks"

text \<open>
  No element with identity \<open>d\<close> is, or has below it, an element of class \<open>cls\<close>.
\<close>

definition clean :: "string \<Rightarrow> nat \<Rightarrow> elem \<Rightarrow> bool" where
  "clean cls d e = list_all (\<lambda>x. eid x = d \<longrightarrow> matches cls x = []) (nodes e)"

text \<open>
  What holds of the document on every page that the events of the module produce:
  the elements have different identities, all older than the next one; the \<open>div\<close> of a
  mounted message is not the body and neither is nor contains a container; the
  \<open>div\<close> of a handle in \<open>MessageList\<close> is mounted or no longer in the document.
\<close>

definition domInv :: "env \<Rightarrow> world \<Rightarrow> bool" where
  "domInv K w \<longleftrightarrow>
     distinct (ids (body w))
   \<and> (\<forall>i \<in> set (ids (body w)). i < nextId w)
   \<and> (\<forall>d \<in> set (map fst (roots w)).
         d < nextId w \<and> d \<noteq> eid (body w) \<and> clean (prefixWrapper K) d (body w))
   \<and> (\<forall>d \<in> set (registered w).
         d < nextId w \<and> (d \<in> set (map fst (roots w)) \<or> d \<notin> set (ids (body w))))"

text \<open>
  A caller can only call the \<open>close\<close> of a handle it was given: its \<open>div\<close> is mounted,
  or it was closed before and is no longer in the document.
\<close>

fun okEvent :: "world \<Rightarrow> event \<Rightarrow> bool" where
  "okEvent w (Close c) = (divOf c \<in> set (map fst (roots w)) \<or> divOf c \<notin> set (ids (body w)))"
| "okEvent w e = True"

text \<open>Every event of a run is one that can happen on the page it meets.\<close>

fun okRun :: "env \<Rightarrow> event list \<Rightarrow> world \<Rightarrow> bool" where
  "okRun K [] w = True"
| "okRun K (e # es) w = (okEvent w e \<and> okRun K es (step K e w))"

text \<open>
  The containers in the body, by identity: what \<open>createContainer\<close> finds with
  \<open>querySelectorAll\<close>.
\<close>

definition containers :: "env \<Rightarrow> world \<Rightarrow> nat list" where
  "containers K w = map eid (querySelectorAll (prefixWrapper K) (body w))"

subsection \<open>Example pages\<close>

text \<open>
  Values for the constants of \<open>./const\<close>, for running the model on examples.
\<close>

definition exampleEnv :: env where
  "exampleEnv = \<lparr> prefixWrapper = ''t-message-list'',
      PlacementOffset = [(''top'', [(''left'', ''50%'')]), (''bottom'', [(''bottom'', ''32px'')])] \<rparr>"

text \<open>A page whose body already holds an element of the application.\<close>

definition pageWithApp :: world where
  "pageWithApp = init\<lparr> body := Elem 0 [] [] [Elem 7 [''app''] [] []], nextId := 8 \<rparr>"

text \<open>Three messages, the second of them closed by its handle.\<close>

definition threeMessages :: world where
  "threeMessages = run exampleEnv
     [Create Info (VStr ''a'') VUndefined, Create Error (VStr ''b'') VUndefined,
      Create Success (VStr ''c'') (VNum 0), Close (CloseOp 3)] init"

text \<open>
  A message with a duration of 100 ms whose \<open>onDurationEnd\<close> calls the \<open>close\<close> it
  is given.
\<close>

definition timedMessage :: world where
  "timedMessage = step exampleEnv
     (Create Info (VObject [(''content'', VStr ''saved''), (''onDurationEnd'', VFun (CallsClose 1))])
        (VNum 100)) init"

text \<open>
  The same message with a handler that calls its argument, \<open>(close) => close()\<close>.
\<close>

definition argumentCalled :: world where
  "argumentCalled = step exampleEnv
     (Create Info (VObject [(''content'', VStr ''saved''), (''onDurationEnd'', VFun (CallsArg 1))])
        (VNum 100)) init"

text \<open>A message whose configuration gives \<open>duration: undefined\<close>.\<close>

definition persistentMessage :: world where
  "persistentMessage = step exampleEnv
     (Create Error (VObject [(''content'', VStr ''Save failed''), (''duration'', VUndefined)]) (VNum 5))
     init"

text \<open>
  A message placed at the top, and one placed at the bottom after the first was closed.
\<close>

definition topMessage :: world where
  "topMessage = step exampleEnv
     (Create Info (VObject [(''content'', VStr ''a''), (''placement'', VStr ''top'')]) VUndefined) init"

definition bottomMessage :: world where
  "bottomMessage = step exampleEnv
     (Create Info (VObject [(''content'', VStr ''b''), (''placement'', VStr ''bottom'')]) VUndefined)
     (run exampleEnv [Elapse 10, Close (CloseOp 2)] topMessage)"

declare runTimers.simps [simp del]

declare showNat.simps [simp del]

section \<open>Properties\<close>

subsection \<open>Reading properties\<close>

lemma getField_Nil: "getField [] n = VUndefined"
  by (simp add: getField_def)

lemma getField_Cons: "getField ((k, v) # fs) n = (if n = k then v else getField fs n)"
  by (simp add: getField_def)

lemma getField_update: "getField (AList.update k v fs) n = (if n = k then v else getField fs n)"
  by (simp add: getField_def update_conv')

lemma getField_absent:
  assumes "n \<notin> fst ` set fs"
  shows "getField fs n = VUndefined"
proof -
  from assms have "map_of fs n = None"
    by (simp add: map_of_eq_None_iff)
  then show ?thesis
    by (simp add: getField_def)
qed

lemma getField_merge_if:
  "getField (AList.merge xs ys) n = (if n \<in> fst ` set ys then getField ys n else getField xs n)"
proof (cases "map_of ys n")
  case None
  then have "n \<notin> fst ` set ys"
    by (simp add: map_of_eq_None_iff)
  with None show ?thesis
    by (simp add: getField_def merge_conv' map_add_def)
next
  case (Some v)
  then have "n \<in> fst ` set ys"
    by (metis map_of_eq_None_iff option.distinct(1))
  with Some show ?thesis
    by (simp add: getField_def merge_conv' map_add_def)
qed

lemma getField_delete: "getField (AList.delete k fs) n = (if n = k then VUndefined else getField fs n)"
  by (simp add: getField_def delete_conv')

lemma getField_messageProps:
  assumes "n \<noteq> ''theme''" "n \<noteq> ''style''" "n \<noteq> ''close''" "n \<noteq> ''children''"
    "n \<noteq> ''ref''" "n \<noteq> ''key''"
  shows "getField (messageProps th st config) n = getField config n"
  using assms
  by (simp add: messageProps_def getField_update getField_delete getField_merge_if
      getField_Cons getField_Nil getField_absent)

lemma isConfig_iff:
  "isConfig content \<longleftrightarrow> (\<exists>fs. content = VObject fs \<and> truthy (getField fs ''content''))"
  by (cases content) (simp_all add: isConfig_def getProp_def getField_def)

subsection \<open>The argument of a factory\<close>

text \<open>
  C10. The first argument of a factory is taken as a configuration exactly when it is
  an object with a truthy \<open>content\<close>. Any other argument becomes the \<open>content\<close> of a
  configuration that holds nothing else but the duration (the second argument, or
  \<open>globalConfig.duration\<close> when that is \<open>undefined\<close>) and the default \<open>zIndex\<close>. In a
  configuration argument a \<open>duration\<close> property wins over the second argument, the
  second argument is used when there is none, and every other property but \<open>zIndex\<close>
  is passed on as it is.
\<close>

theorem factory_config_recognition:
  "(isConfig content \<longleftrightarrow> (\<exists>fs. content = VObject fs \<and> truthy (getField fs ''content'')))
   \<and> (\<not> isConfig content \<longrightarrow>
        factoryConfig content durationArg =
          [(''content'', content),
           (''duration'', if durationArg = VUndefined then VNum globalConfig_duration else durationArg),
           (''zIndex'', VNum globalConfig_zIndex)])
   \<and> (isConfig content \<longrightarrow>
        (\<forall>v. map_of (ownProps content) ''duration'' = Some v \<longrightarrow>
             getField (factoryConfig content durationArg) ''duration'' = v)
        \<and> (map_of (ownProps content) ''duration'' = None \<longrightarrow>
             getField (factoryConfig content durationArg) ''duration'' =
               (if durationArg = VUndefined then VNum globalConfig_duration else durationArg))
        \<and> (\<forall>n. n \<noteq> ''duration'' \<and> n \<noteq> ''zIndex'' \<longrightarrow>
             getField (factoryConfig content durationArg) n = getProp content n))"
proof (intro conjI impI allI)
  show "isConfig content \<longleftrightarrow> (\<exists>fs. content = VObject fs \<and> truthy (getField fs ''content''))"
    by (rule isConfig_iff)
next
  assume "\<not> isConfig content"
  then show "factoryConfig content durationArg =
          [(''content'', content),
           (''duration'', if durationArg = VUndefined then VNum globalConfig_duration else durationArg),
           (''zIndex'', VNum globalConfig_zIndex)]"
    by (simp add: factoryConfig_def Let_def getField_def jsOr_def)
next
  fix v assume c: "isConfig content" and d: "map_of (ownProps content) ''duration'' = Some v"
  have "getField (AList.merge [(''duration'', x)] (ownProps content)) ''duration'' = v" for x
    using d by (simp add: getField_def merge_conv' map_add_def)
  then show "getField (factoryConfig content durationArg) ''duration'' = v"
    using c by (simp add: factoryConfig_def Let_def getField_update)
next
  assume c: "isConfig content" and d: "map_of (ownProps content) ''duration'' = None"
  have "getField (AList.merge [(''duration'', x)] (ownProps content)) ''duration'' = x" for x
    using d by (simp add: getField_def merge_conv' map_add_def)
  then show "getField (factoryConfig content durationArg) ''duration'' =
               (if durationArg = VUndefined then VNum globalConfig_duration else durationArg)"
    using c by (simp add: factoryConfig_def Let_def getField_update)
next
  fix n assume "isConfig content" "n \<noteq> ''duration'' \<and> n \<noteq> ''zIndex''"
  then show "getField (factoryConfig content durationArg) n = getProp content n"
    by (simp add: factoryConfig_def Let_def getField_update getField_merge_if getField_Cons
        getField_Nil getProp_def getField_absent)
qed

theorem factory_config_recognition_witness:
  "isConfig (VObject [(''content'', VStr ''saved''), (''duration'', VNum 7)])
   \<and> getField (factoryConfig (VObject [(''content'', VStr ''saved''), (''duration'', VNum 7)]) (VNum 5))
        ''duration'' = VNum 7
   \<and> \<not> isConfig (VObject [(''content'', VStr []), (''duration'', VNum 7)])
   \<and> factoryConfig (VObject [(''content'', VStr []), (''duration'', VNum 7)]) (VNum 5) =
        [(''content'', VObject [(''content'', VStr []), (''duration'', VNum 7)]),
         (''duration'', VNum 5), (''zIndex'', VNum globalConfig_zIndex)]"
  using factory_config_recognition
          [of "VObject [(''content'', VStr ''saved''), (''duration'', VNum 7)]" "VNum 5"]
        factory_config_recognition
          [of "VObject [(''content'', VStr []), (''duration'', VNum 7)]" "VNum 5"]
  by (simp add: getField_def)

subsection \<open>Closing a message\<close>

lemma eid_removeNode: "eid (removeNode m e) = eid e"
  by (cases e) simp

lemma removeNode_idem:
  "removeNode m (removeNode m e) = removeNode m e"
  "removeNodeL m (removeNodeL m ks) = removeNodeL m ks"
  by (induction m e and m ks rule: removeNode_removeNodeL.induct) (auto simp: eid_removeNode)

lemma unmount_unmounted: "map_of (roots w) d = None \<Longrightarrow> unmountComponentAtNode d w = w"
  by (simp add: unmountComponentAtNode_def)

lemma roots_unmount: "map_of (roots (unmountComponentAtNode d w)) d = None"
  by (auto simp: unmountComponentAtNode_def clearTimeout_def Let_def delete_conv'
      split: option.splits)

text \<open>
  C4. Calling \<open>close\<close> of a handle a second time changes nothing: the page after two
  calls is the page after one, so no callback runs again (the callbacks invoked so far
  are part of the page), and the call cannot throw.
\<close>

theorem close_idempotent:
  "callClose c (callClose c w) = callClose c w"
proof (cases c)
  case (CloseOp d)
  let ?u = "unmountComponentAtNode d w"
  have "map_of (roots (?u\<lparr>body := removeNode d (body ?u)\<rparr>)) d = None"
    by (simp add: roots_unmount)
  then have "unmountComponentAtNode d (?u\<lparr>body := removeNode d (body ?u)\<rparr>)
             = ?u\<lparr>body := removeNode d (body ?u)\<rparr>"
    by (rule unmount_unmounted)
  then show ?thesis
    using CloseOp by (simp add: msgClose_def Let_def removeNode_idem)
qed

theorem close_idempotent_witness:
  "callClose (CloseOp 2) (callClose (CloseOp 2)
      (run exampleEnv [Create Info (VStr ''saved'') VUndefined] init))
   = callClose (CloseOp 2) (run exampleEnv [Create Info (VStr ''saved'') VUndefined] init)"
  using close_idempotent
          [of "CloseOp 2" "run exampleEnv [Create Info (VStr ''saved'') VUndefined] init"]
  by simp

subsection \<open>What each operation leaves alone\<close>

lemma clearTimeout_fields [simp]:
  "now (clearTimeout i w) = now w"
  "body (clearTimeout i w) = body w"
  "nextId (clearTimeout i w) = nextId w"
  "roots (clearTimeout i w) = roots w"
  "nextTimer (clearTimeout i w) = nextTimer w"
  "MessageList (clearTimeout i w) = MessageList w"
  "keyIndex (clearTimeout i w) = keyIndex w"
  "trace (clearTimeout i w) = trace w"
  "timers (clearTimeout i w) = filter (\<lambda>t. tid t \<noteq> i) (timers w)"
  by (simp_all add: clearTimeout_def)

lemma startDuration_fields [simp]:
  "now (startDuration d w) = now w"
  "body (startDuration d w) = body w"
  "nextId (startDuration d w) = nextId w"
  "MessageList (startDuration d w) = MessageList w"
  "keyIndex (startDuration d w) = keyIndex w"
  "trace (startDuration d w) = trace w"
  by (simp_all add: startDuration_def Let_def split: option.splits)

lemma mountMessage_fields [simp]:
  "now (mountMessage ps d w) = now w"
  "body (mountMessage ps d w) = body w"
  "nextId (mountMessage ps d w) = nextId w"
  "MessageList (mountMessage ps d w) = MessageList w"
  "keyIndex (mountMessage ps d w) = keyIndex w"
  "trace (mountMessage ps d w) = trace w"
  by (simp_all add: mountMessage_def Let_def)

lemma unmount_fields [simp]:
  "now (unmountComponentAtNode d w) = now w"
  "body (unmountComponentAtNode d w) = body w"
  "nextId (unmountComponentAtNode d w) = nextId w"
  "nextTimer (unmountComponentAtNode d w) = nextTimer w"
  "MessageList (unmountComponentAtNode d w) = MessageList w"
  "keyIndex (unmountComponentAtNode d w) = keyIndex w"
  by (simp_all add: unmountComponentAtNode_def Let_def split: option.splits)

lemma msgClose_fields [simp]:
  "now (msgClose d w) = now w"
  "body (msgClose d w) = removeNode d (body w)"
  "nextId (msgClose d w) = nextId w"
  "nextTimer (msgClose d w) = nextTimer w"
  "MessageList (msgClose d w) = MessageList w"
  "keyIndex (msgClose d w) = keyIndex w"
  "roots (msgClose d w) = roots (unmountComponentAtNode d w)"
  "timers (msgClose d w) = timers (unmountComponentAtNode d w)"
  "trace (msgClose d w) = trace (unmountComponentAtNode d w)"
  by (simp_all add: msgClose_def Let_def)

lemma callClose_fields [simp]:
  "nextId (callClose c w) = nextId w"
  "nextTimer (callClose c w) = nextTimer w"
  "MessageList (callClose c w) = MessageList w"
  "keyIndex (callClose c w) = keyIndex w"
  "now (callClose c w) = now w"
  by (cases c; simp)+

lemma mouseEnter_fields [simp]:
  "now (mouseEnter d w) = now w"
  "body (mouseEnter d w) = body w"
  "nextId (mouseEnter d w) = nextId w"
  "roots (mouseEnter d w) = roots w"
  "nextTimer (mouseEnter d w) = nextTimer w"
  "MessageList (mouseEnter d w) = MessageList w"
  "keyIndex (mouseEnter d w) = keyIndex w"
  "trace (mouseEnter d w) = trace w"
  by (simp_all add: mouseEnter_def split: option.splits)

lemma mouseLeave_fields [simp]:
  "now (mouseLeave d w) = now w"
  "body (mouseLeave d w) = body w"
  "nextId (mouseLeave d w) = nextId w"
  "MessageList (mouseLeave d w) = MessageList w"
  "keyIndex (mouseLeave d w) = keyIndex w"
  "trace (mouseLeave d w) = trace w"
  by (simp_all add: mouseLeave_def)

text \<open>
  The four things the callback of a timeout can do: throw before the handler is
  called, throw in the handler, close the message after the handler, and close it
  after a handler that has closed it already.
\<close>

lemma fire_cases:
  "fire t w = w
   \<or> fire t w = w\<lparr> trace := trace w @ [CbDurationEnd (owner t) (Obj [(''close'', CloseOp (owner t))])] \<rparr>
   \<or> fire t w = msgClose (owner t)
        (w\<lparr> trace := trace w @ [CbDurationEnd (owner t) (Obj [(''close'', CloseOp (owner t))])] \<rparr>)
   \<or> fire t w = msgClose (owner t) (msgClose (owner t)
        (w\<lparr> trace := trace w @ [CbDurationEnd (owner t) (Obj [(''close'', CloseOp (owner t))])] \<rparr>))"
proof (cases "cbDurationEnd t")
  case (VFun f)
  then show ?thesis by (cases f) (simp_all add: fire_def Let_def)
qed (simp_all add: fire_def Let_def)

lemma fire_fields [simp]:
  "nextId (fire t w) = nextId w"
  "nextTimer (fire t w) = nextTimer w"
  "MessageList (fire t w) = MessageList w"
  "keyIndex (fire t w) = keyIndex w"
  "now (fire t w) = now w"
  by (insert fire_cases[of t w], auto)

lemma runTimers_fields [simp]:
  "nextId (runTimers T w) = nextId w"
  "nextTimer (runTimers T w) = nextTimer w"
  "MessageList (runTimers T w) = MessageList w"
  "keyIndex (runTimers T w) = keyIndex w"
proof (induction T w rule: runTimers.induct)
  case (1 T w)
  {
    case 1 show ?case using "1.IH"(1) by (subst runTimers.simps) (simp split: option.splits)
  next
    case 2 show ?case using "1.IH"(2) by (subst runTimers.simps) (simp split: option.splits)
  next
    case 3 show ?case using "1.IH"(3) by (subst runTimers.simps) (simp split: option.splits)
  next
    case 4 show ?case using "1.IH"(4) by (subst runTimers.simps) (simp split: option.splits)
  }
qed

lemma elapse_fields [simp]:
  "nextId (elapse n w) = nextId w"
  "nextTimer (elapse n w) = nextTimer w"
  "MessageList (elapse n w) = MessageList w"
  "keyIndex (elapse n w) = keyIndex w"
  by (simp_all add: elapse_def)

lemma foldl_close_fields [simp]:
  "nextId (foldl (\<lambda>v h. callClose (close h) v) w hs) = nextId w"
  "nextTimer (foldl (\<lambda>v h. callClose (close h) v) w hs) = nextTimer w"
  "MessageList (foldl (\<lambda>v h. callClose (close h) v) w hs) = MessageList w"
  "keyIndex (foldl (\<lambda>v h. callClose (close h) v) w hs) = keyIndex w"
  "now (foldl (\<lambda>v h. callClose (close h) v) w hs) = now w"
  by (induction hs arbitrary: w; simp)+

lemma closeAll_fields [simp]:
  "nextId (closeAll w) = nextId w"
  "nextTimer (closeAll w) = nextTimer w"
  "MessageList (closeAll w) = []"
  "keyIndex (closeAll w) = keyIndex w"
  "now (closeAll w) = now w"
  by (simp_all add: closeAll_def)

subsection \<open>Creating a message\<close>

lemma createContainer_cases:
  assumes "createContainer K config w = Inr (c, w1)"
  shows "(querySelectorAll (prefixWrapper K) (body w) \<noteq> []
            \<and> c = eid (hd (querySelectorAll (prefixWrapper K) (body w))) \<and> w1 = w)
       \<or> (querySelectorAll (prefixWrapper K) (body w) = [] \<and> c = nextId w
            \<and> (\<exists>st. w1 = w\<lparr> body := appendChild (eid (body w))
                                 (Elem (nextId w) [prefixWrapper K] st []) (body w),
                              nextId := nextId w + 1 \<rparr>))"
  using assms
  by (auto simp: createContainer_def Let_def split: if_splits list.splits jsval.splits option.splits)

lemma createContainer_fields:
  assumes "createContainer K config w = Inr (c, w1)"
  shows "now w1 = now w" "roots w1 = roots w" "timers w1 = timers w"
    "nextTimer w1 = nextTimer w" "MessageList w1 = MessageList w"
    "keyIndex w1 = keyIndex w" "trace w1 = trace w" "nextId w \<le> nextId w1"
  using createContainer_cases[OF assms] by auto

lemma createContainer_Inl: "createContainer K config w = Inl e \<Longrightarrow> e = TypeError"
  by (auto simp: createContainer_def Let_def
      split: if_splits list.splits jsval.splits option.splits)

lemma ReactDOM_render_Some:
  "ReactDOM_render ps r d w = Some v \<longleftrightarrow>
     refOk r \<and> renderable (getField ps ''children'') \<and> styleOk (getField ps ''style'')
   \<and> v = mountMessage ps d w"
  by (auto simp: ReactDOM_render_def)

lemma ReactDOM_render_None:
  "ReactDOM_render ps r d w = None \<longleftrightarrow>
     \<not> (refOk r \<and> renderable (getField ps ''children'') \<and> styleOk (getField ps ''style''))"
  by (simp add: ReactDOM_render_def)

lemma renderElement_Inr:
  assumes "renderElement K th config w = Inr (p, w')"
  shows "\<exists>c w1 ps. createContainer K config w = Inr (c, w1)
          \<and> w' = (mountMessage ps (nextId w1)
                    (w1\<lparr> nextId := nextId w1 + 1, keyIndex := keyIndex w1 + 1 \<rparr>))
                  \<lparr> body := appendChild c (Elem (nextId w1) [] [] []) (body w1),
                    MessageList := MessageList w1 @ [\<lparr> close = CloseOp (nextId w1), key = keyIndex w1 + 1 \<rparr>] \<rparr>
          \<and> ps = messageProps th (offsetStyle (getField config ''offset'')) config
          \<and> p = (if ''ref'' \<in> set (map fst config) then Pending
                 else Resolved \<lparr> close = CloseOp (nextId w1), key = keyIndex w1 + 1 \<rparr>)
          \<and> renderable (getField ps ''children'') \<and> styleOk (getField ps ''style'')"
proof (cases "createContainer K config w")
  case (Inl e)
  with assms show ?thesis by (simp add: renderElement_def)
next
  case (Inr cw)
  obtain c w1 where cw: "cw = (c, w1)" by (cases cw)
  let ?ps = "messageProps th (offsetStyle (getField config ''offset'')) config"
  let ?w2 = "w1\<lparr> nextId := nextId w1 + 1, keyIndex := keyIndex w1 + 1 \<rparr>"
  show ?thesis
  proof (cases "ReactDOM_render ?ps (getField config ''ref'') (nextId w1) ?w2")
    case None
    with assms Inr cw show ?thesis by (simp add: renderElement_def Let_def)
  next
    case (Some w3)
    then have ok: "renderable (getField ?ps ''children'')" "styleOk (getField ?ps ''style'')"
      and w3: "w3 = mountMessage ?ps (nextId w1) ?w2"
      by (simp_all add: ReactDOM_render_Some)
    from assms Inr cw Some have
      "p = (if ''ref'' \<in> set (map fst config) then Pending
            else Resolved \<lparr> close = CloseOp (nextId w1), key = keyIndex w1 + 1 \<rparr>)"
      and "w' = w3\<lparr> body := appendChild c (Elem (nextId w1) [] [] []) (body w3),
                     MessageList := MessageList w3 @ [\<lparr> close = CloseOp (nextId w1), key = keyIndex w1 + 1 \<rparr>] \<rparr>"
      by (simp_all add: renderElement_def Let_def split del: if_split cong del: if_weak_cong)
    with Inr cw ok w3 show ?thesis
      by (simp add: mountMessage_fields split del: if_split cong del: if_weak_cong)
  qed
qed

lemma renderElement_Inl:
  assumes "renderElement K th config w = Inl e"
  shows "e = TypeError
       \<or> (\<exists>c w1. createContainer K config w = Inr (c, w1)
             \<and> e = Rejected (w1\<lparr> nextId := nextId w1 + 1, keyIndex := keyIndex w1 + 1 \<rparr>))"
proof (cases "createContainer K config w")
  case (Inl a)
  with assms createContainer_Inl[OF Inl] show ?thesis by (simp add: renderElement_def)
next
  case (Inr cw)
  obtain c w1 where cw: "cw = (c, w1)" by (cases cw)
  from assms Inr cw show ?thesis
    by (simp add: renderElement_def Let_def split: option.splits)
qed

text \<open>
  What a factory call that fails does to the page: nothing, or it resolves the
  container and uses up an element identity and a key.
\<close>

lemma step_failed:
  assumes "factory K th content durationArg w = Inl e"
  shows "step K (Create th content durationArg) w = w
       \<or> (\<exists>c w1. createContainer K (factoryConfig content durationArg) w = Inr (c, w1)
             \<and> step K (Create th content durationArg) w
                 = w1\<lparr> nextId := nextId w1 + 1, keyIndex := keyIndex w1 + 1 \<rparr>)"
proof -
  from assms have "renderElement K th (factoryConfig content durationArg) w = Inl e"
    by (simp add: factory_def)
  from renderElement_Inl[OF this] assms show ?thesis by auto
qed

lemma step_failed_fields:
  assumes "factory K th content durationArg w = Inl e"
  shows "now (step K (Create th content durationArg) w) = now w"
    and "roots (step K (Create th content durationArg) w) = roots w"
    and "timers (step K (Create th content durationArg) w) = timers w"
    and "nextTimer (step K (Create th content durationArg) w) = nextTimer w"
    and "MessageList (step K (Create th content durationArg) w) = MessageList w"
    and "trace (step K (Create th content durationArg) w) = trace w"
    and "keyIndex w \<le> keyIndex (step K (Create th content durationArg) w)"
    and "nextId w \<le> nextId (step K (Create th content durationArg) w)"
  using step_failed[OF assms] by (auto dest: createContainer_fields)

lemma renderElement_fields:
  assumes "renderElement K th config w = Inr (p, w')"
  shows "keyIndex w' = keyIndex w + 1"
    and "\<exists>d. MessageList w' = MessageList w @ [\<lparr> close = CloseOp d, key = keyIndex w + 1 \<rparr>]
             \<and> map_of (roots w') d \<noteq> None
             \<and> (''ref'' \<notin> set (map fst config) \<longrightarrow> p = Resolved \<lparr> close = CloseOp d, key = keyIndex w + 1 \<rparr>)"
    and "now w' = now w" "trace w' = trace w"
proof -
  from renderElement_Inr[OF assms] obtain c w1 ps where
    cc: "createContainer K config w = Inr (c, w1)" and
    w': "w' = (mountMessage ps (nextId w1)
                    (w1\<lparr> nextId := nextId w1 + 1, keyIndex := keyIndex w1 + 1 \<rparr>))
                  \<lparr> body := appendChild c (Elem (nextId w1) [] [] []) (body w1),
                    MessageList := MessageList w1 @ [\<lparr> close = CloseOp (nextId w1), key = keyIndex w1 + 1 \<rparr>] \<rparr>" and
    p: "p = (if ''ref'' \<in> set (map fst config) then Pending
                 else Resolved \<lparr> close = CloseOp (nextId w1), key = keyIndex w1 + 1 \<rparr>)"
    by blast
  note f = createContainer_fields[OF cc]
  show "keyIndex w' = keyIndex w + 1" using w' f by simp
  show "now w' = now w" using w' f by simp
  show "trace w' = trace w" using w' f by simp
  have m: "map_of (roots (mountMessage ps d v)) d \<noteq> None" for d v
    by (simp add: mountMessage_def startDuration_def Let_def update_conv' split: option.splits)
  show "\<exists>d. MessageList w' = MessageList w @ [\<lparr> close = CloseOp d, key = keyIndex w + 1 \<rparr>]
             \<and> map_of (roots w') d \<noteq> None
             \<and> (''ref'' \<notin> set (map fst config) \<longrightarrow> p = Resolved \<lparr> close = CloseOp d, key = keyIndex w + 1 \<rparr>)"
    using w' f p m by (intro exI[of _ "nextId w1"]) simp
qed

lemma plain_config:
  assumes "\<not> isConfig content"
  shows "factoryConfig content durationArg = [(''content'', content),
           (''duration'', if durationArg = VUndefined then VNum globalConfig_duration else durationArg),
           (''zIndex'', VNum globalConfig_zIndex)]"
  using assms by (simp add: factoryConfig_def Let_def getField_def jsOr_def)

lemma plain_container:
  assumes "map_of (PlacementOffset K) Top \<noteq> None" and "\<not> isConfig content"
  shows "\<exists>c w1. createContainer K (factoryConfig content durationArg) w = Inr (c, w1)"
  using assms(1) unfolding plain_config[OF assms(2)]
  by (auto simp: createContainer_def Let_def getField_def split: list.splits)

lemma plain_props:
  assumes "\<not> isConfig content"
  shows "getField (messageProps th (offsetStyle (getField (factoryConfig content durationArg) ''offset''))
            (factoryConfig content durationArg)) ''children'' = content"
    and "getField (messageProps th (offsetStyle (getField (factoryConfig content durationArg) ''offset''))
            (factoryConfig content durationArg)) ''style'' = VObject []"
    and "getField (factoryConfig content durationArg) ''ref'' = VUndefined"
  unfolding plain_config[OF assms]
  by (simp_all add: messageProps_def offsetStyle_def getField_update getField_delete
      getField_merge_if getField_Cons getField_Nil)

lemma factory_plain_succeeds:
  assumes "map_of (PlacementOffset K) Top \<noteq> None" and "\<not> isConfig content"
    and "renderable content"
  shows "\<exists>p w'. factory K th content durationArg w = Inr (p, w')"
proof -
  let ?cfg = "factoryConfig content durationArg"
  from plain_container[OF assms(1,2)] obtain c w1 where
    cc: "createContainer K ?cfg w = Inr (c, w1)" by blast
  let ?ps = "messageProps th (offsetStyle (getField ?cfg ''offset'')) ?cfg"
  have "ReactDOM_render ?ps (getField ?cfg ''ref'') d v \<noteq> None" for d v
    using assms(3) by (simp add: ReactDOM_render_None plain_props[OF assms(2)])
  then show ?thesis
    using cc by (auto simp: factory_def renderElement_def Let_def split: option.splits)
qed

text \<open>
  Plain content that React cannot render: the promise is rejected, no message is
  mounted and no handle is registered, but a key is used up.
\<close>

lemma factory_plain_rejected:
  assumes "map_of (PlacementOffset K) Top \<noteq> None" and "\<not> isConfig content"
    and "\<not> renderable content"
  shows "\<exists>w'. factory K th content durationArg w = Inl (Rejected w')
           \<and> roots w' = roots w \<and> MessageList w' = MessageList w
           \<and> keyIndex w' = keyIndex w + 1"
proof -
  let ?cfg = "factoryConfig content durationArg"
  from plain_container[OF assms(1,2)] obtain c w1 where
    cc: "createContainer K ?cfg w = Inr (c, w1)" by blast
  let ?ps = "messageProps th (offsetStyle (getField ?cfg ''offset'')) ?cfg"
  have "ReactDOM_render ?ps (getField ?cfg ''ref'') d v = None" for d v
    using assms(3) by (simp add: ReactDOM_render_None plain_props[OF assms(2)])
  then show ?thesis
    using cc createContainer_fields[OF cc]
    by (simp add: factory_def renderElement_def Let_def)
qed

lemma keyIndex_step: "keyIndex w \<le> keyIndex (step K e w)"
proof (cases e)
  case (Create th content durationArg)
  show ?thesis
  proof (cases "factory K th content durationArg w")
    case (Inl a)
    from step_failed_fields(7)[OF Inl] Create show ?thesis by simp
  next
    case (Inr pw)
    obtain p w' where pw: "pw = (p, w')" by (cases pw)
    from Inr pw have "renderElement K th (factoryConfig content durationArg) w = Inr (p, w')"
      by (simp add: factory_def)
    from renderElement_fields(1)[OF this] Create Inr pw show ?thesis by simp
  qed
qed simp_all

lemma keyIndex_run: "keyIndex w \<le> keyIndex (run K evs w)"
proof (induction evs arbitrary: w)
  case Nil
  show ?case by simp
next
  case (Cons e es)
  have "keyIndex w \<le> keyIndex (step K e w)" by (rule keyIndex_step)
  also have "\<dots> \<le> keyIndex (run K es (step K e w))" by (rule Cons.IH)
  finally show ?case by simp
qed

lemma newKeys_bounds:
  assumes "k \<in> set (newKeys K e w)"
  shows "keyIndex w < k \<and> k \<le> keyIndex (step K e w)"
proof (cases e)
  case (Create th content durationArg)
  show ?thesis
  proof (cases "factory K th content durationArg w")
    case (Inl a)
    with assms Create show ?thesis by simp
  next
    case (Inr pw)
    obtain p w' where pw: "pw = (p, w')" by (cases pw)
    show ?thesis
    proof (cases p)
      case Pending
      with assms Create Inr pw show ?thesis by simp
    next
      case (Resolved h)
      with assms Create Inr pw have k: "k = key h" by simp
      from Inr pw Resolved
      have r: "renderElement K th (factoryConfig content durationArg) w = Inr (Resolved h, w')"
        by (simp add: factory_def)
      from renderElement_Inr[OF r] have "key h = keyIndex w + 1"
        by (auto split: if_splits dest: createContainer_fields(6))
      moreover from renderElement_fields(1)[OF r] have "keyIndex w' = keyIndex w + 1" .
      ultimately show ?thesis using Create Inr pw k by simp
    qed
  qed
qed (use assms in simp_all)

lemma issued_bounds:
  "k \<in> set (issued K evs w) \<Longrightarrow> keyIndex w < k \<and> k \<le> keyIndex (run K evs w)"
proof (induction evs arbitrary: w)
  case Nil
  then show ?case by simp
next
  case (Cons e es)
  from Cons.prems consider "k \<in> set (newKeys K e w)" | "k \<in> set (issued K es (step K e w))"
    by auto
  then show ?case
  proof cases
    case 1
    from newKeys_bounds[OF 1] keyIndex_run[of "step K e w" K es] show ?thesis by simp
  next
    case 2
    from Cons.IH[OF 2] keyIndex_step[of w K e] show ?thesis by simp
  qed
qed

text \<open>
  C5. After any run of events on a fresh page, the factory of every theme, called with
  plain content (a value that is not a configuration and that React can render),
  returns a promise resolved with a handle: its \<open>close\<close> is the closure over the
  \<open>div\<close> in which the message is now mounted, and its \<open>key\<close> is greater than every
  key handed out during the run and greater than 1. The table \<open>PlacementOffset\<close> must
  have the key \<open>'top'\<close>, the default placement, and the counter must be below
  \<open>2^53\<close>, where a JavaScript number still counts in steps of 1.
\<close>

theorem factory_issues_fresh_key:
  assumes "map_of (PlacementOffset K) Top \<noteq> None" and "\<not> isConfig content"
    and "renderable content" and "keyIndex (run K evs init) < 2 ^ 53"
  shows "\<exists>h w'. factory K th content durationArg (run K evs init) = Inr (Resolved h, w')
           \<and> (\<exists>d. close h = CloseOp d \<and> map_of (roots w') d \<noteq> None)
           \<and> (\<forall>k \<in> set (issued K evs init). k < key h)
           \<and> 1 < key h"
proof -
  let ?w = "run K evs init"
  let ?cfg = "factoryConfig content durationArg"
  from factory_plain_succeeds[OF assms(1-3)] obtain p w' where
    f: "factory K th content durationArg ?w = Inr (p, w')" by blast
  then have r: "renderElement K th ?cfg ?w = Inr (p, w')" by (simp add: factory_def)
  have noref: "''ref'' \<notin> set (map fst ?cfg)"
    using assms(2) by (simp add: factoryConfig_def Let_def getField_def jsOr_def)
  from renderElement_fields(2)[OF r] noref obtain d where
    d: "map_of (roots w') d \<noteq> None" and p: "p = Resolved \<lparr> close = CloseOp d, key = keyIndex ?w + 1 \<rparr>"
    by blast
  have one: "1 \<le> keyIndex ?w"
    using keyIndex_run[of init K evs] by (simp add: init_def)
  have old: "\<forall>k \<in> set (issued K evs init). k < keyIndex ?w + 1"
    using issued_bounds[of _ K evs init] by fastforce
  show ?thesis
    using f p d one old by (intro exI[of _ "\<lparr> close = CloseOp d, key = keyIndex ?w + 1 \<rparr>"] exI[of _ w']) auto
qed


theorem factory_issues_fresh_key_witness:
  "map_of (PlacementOffset exampleEnv) Top \<noteq> None
   \<and> \<not> isConfig (VStr ''saved'')
   \<and> renderable (VStr ''saved'')
   \<and> keyIndex (run exampleEnv
        [Create Info (VStr ''a'') VUndefined, CloseAll, Create Error (VStr ''b'') (VNum 0)] init) = 3
   \<and> issued exampleEnv
        [Create Info (VStr ''a'') VUndefined, CloseAll, Create Error (VStr ''b'') (VNum 0)] init = [2, 3]
   \<and> (\<exists>h w'. factory exampleEnv Warning (VStr ''saved'') VUndefined
          (run exampleEnv
            [Create Info (VStr ''a'') VUndefined, CloseAll, Create Error (VStr ''b'') (VNum 0)] init)
          = Inr (Resolved h, w') \<and> 2 < key h \<and> 3 < key h \<and> 1 < key h)"
proof -
  have h1: "map_of (PlacementOffset exampleEnv) Top \<noteq> None"
    by (simp add: exampleEnv_def Top_def)
  have h2: "\<not> isConfig (VStr ''saved'')"
    by (simp add: isConfig_def)
  have i: "issued exampleEnv
        [Create Info (VStr ''a'') VUndefined, CloseAll, Create Error (VStr ''b'') (VNum 0)] init = [2, 3]"
    by code_simp
  have h3: "renderable (VStr ''saved'')" by simp
  have k: "keyIndex (run exampleEnv
        [Create Info (VStr ''a'') VUndefined, CloseAll, Create Error (VStr ''b'') (VNum 0)] init) = 3"
    by code_simp
  have h4: "keyIndex (run exampleEnv
        [Create Info (VStr ''a'') VUndefined, CloseAll, Create Error (VStr ''b'') (VNum 0)] init) < 2 ^ 53"
    unfolding k by simp
  from factory_issues_fresh_key[OF h1 h2 h3 h4, of Warning VUndefined]
  show ?thesis
    unfolding i using h1 h2 h3 k by auto
qed

text \<open>
  C6, as claimed: after \<open>close\<close> of a handle the handle is no longer in
  \<open>MessageList\<close>. It is still there: \<open>message.close\<close> does not touch the list.
\<close>

theorem close_keeps_registry_counterexample:
  "factory exampleEnv Info (VStr ''saved'') VUndefined init =
     Inr (Resolved \<lparr> close = CloseOp 2, key = 2 \<rparr>,
          step exampleEnv (Create Info (VStr ''saved'') VUndefined) init)
   \<and> MessageList (callClose (CloseOp 2) (step exampleEnv (Create Info (VStr ''saved'') VUndefined) init))
       = [\<lparr> close = CloseOp 2, key = 2 \<rparr>]"
  by code_simp

text \<open>
  C6, amended. \<open>MessageList\<close> changes in two ways only: a factory call that
  succeeds appends the new handle at the end, and \<open>closeAll\<close> empties the list. Every
  other event, \<open>close\<close> of a handle and the firing of timers among them, and a factory
  call that fails, leaves it as it is.
\<close>

theorem registry_mutations:
  "(\<forall>th content durationArg. e = Create th content durationArg \<longrightarrow>
      (case factory K th content durationArg w of
         Inl err \<Rightarrow> MessageList (step K e w) = MessageList w
       | Inr (p, w') \<Rightarrow>
           (\<exists>d. MessageList (step K e w) =
                  MessageList w @ [\<lparr> close = CloseOp d, key = keyIndex w + 1 \<rparr>])))
   \<and> (e = CloseAll \<longrightarrow> MessageList (step K e w) = [])
   \<and> ((\<forall>th content durationArg. e \<noteq> Create th content durationArg) \<and> e \<noteq> CloseAll \<longrightarrow>
        MessageList (step K e w) = MessageList w)"
proof (cases e)
  case (Create th content durationArg)
  show ?thesis
  proof (cases "factory K th content durationArg w")
    case (Inl a)
    from step_failed_fields(5)[OF Inl] Create Inl show ?thesis by simp
  next
    case (Inr pw)
    obtain p w' where pw: "pw = (p, w')" by (cases pw)
    from Inr pw have "renderElement K th (factoryConfig content durationArg) w = Inr (p, w')"
      by (simp add: factory_def)
    from renderElement_fields(2)[OF this] Create Inr pw show ?thesis by auto
  qed
qed simp_all

theorem registry_mutations_witness:
  "MessageList (step exampleEnv (Close (CloseOp 2))
       (step exampleEnv (Create Info (VStr ''saved'') VUndefined) init))
     = MessageList (step exampleEnv (Create Info (VStr ''saved'') VUndefined) init)
   \<and> MessageList (step exampleEnv CloseAll
       (step exampleEnv (Create Info (VStr ''saved'') VUndefined) init)) = []
   \<and> MessageList (step exampleEnv (Create Info (VStr ''saved'') VUndefined) init)
     = [\<lparr> close = CloseOp 2, key = 2 \<rparr>]"
proof -
  have c: "MessageList (step exampleEnv (Create Info (VStr ''saved'') VUndefined) init)
     = [\<lparr> close = CloseOp 2, key = 2 \<rparr>]"
    by code_simp
  from registry_mutations[of "Close (CloseOp 2)" exampleEnv
      "step exampleEnv (Create Info (VStr ''saved'') VUndefined) init"]
    registry_mutations[of CloseAll exampleEnv
      "step exampleEnv (Create Info (VStr ''saved'') VUndefined) init"]
  show ?thesis using c by simp
qed

text \<open>
  C9. The test on \<open>attach\<close> is \<open>React.isValidElement\<close>, which no DOM element
  passes. On a page whose body holds the element 7, a factory call with \<open>attach\<close> set
  to that element puts the container (8) into the body, next to 7 and not inside it;
  with a React element as \<open>attach\<close> the call throws a \<open>TypeError\<close>.
\<close>

theorem attach_never_used:
  "kidsOf 7 (body (step exampleEnv
      (Create Info (VObject [(''content'', VStr ''saved''), (''attach'', VDomElement 7)]) VUndefined)
      pageWithApp)) = Some []
   \<and> kidsOf 0 (body (step exampleEnv
      (Create Info (VObject [(''content'', VStr ''saved''), (''attach'', VDomElement 7)]) VUndefined)
      pageWithApp)) = Some [7, 8]
   \<and> kidsOf 8 (body (step exampleEnv
      (Create Info (VObject [(''content'', VStr ''saved''), (''attach'', VDomElement 7)]) VUndefined)
      pageWithApp)) = Some [9]
   \<and> kidsOf 7 (body pageWithApp) = Some []
   \<and> factory exampleEnv Info (VObject [(''content'', VStr ''saved''), (''attach'', VReactElement)])
        VUndefined pageWithApp = Inl TypeError"
  by code_simp

subsection \<open>The callbacks that have run\<close>

lemma closedIds_append [simp]: "closedIds (xs @ ys) = closedIds xs @ closedIds ys"
  by (induction xs rule: closedIds.induct) simp_all

lemma closedIds_map_CbClosed [simp]: "closedIds (map CbClosed xs) = xs"
  by (induction xs) simp_all

lemma count_closedIds: "count_list tr (CbClosed d) = count_list (closedIds tr) d"
  by (induction tr rule: closedIds.induct) simp_all

lemma count_list_distinct:
  "distinct xs \<Longrightarrow> x \<in> set xs \<Longrightarrow> count_list xs x = 1"
  by (induction xs) auto

lemma timesClosed_one:
  "distinct (closedIds (trace w)) \<Longrightarrow> d \<in> set (closedIds (trace w)) \<Longrightarrow> timesClosed d w = 1"
  by (simp add: timesClosed_def count_closedIds count_list_distinct)

lemma timesClosed_zero:
  "d \<notin> set (closedIds (trace w)) \<Longrightarrow> timesClosed d w = 0"
  by (simp add: timesClosed_def count_closedIds)

lemma unmount_roots: "roots (unmountComponentAtNode d w) = AList.delete d (roots w)"
proof (cases "map_of (roots w) d")
  case None
  then have "d \<notin> fst ` set (roots w)" by (simp add: map_of_eq_None_iff)
  with None show ?thesis by (simp add: unmountComponentAtNode_def)
next
  case (Some inst)
  then show ?thesis by (simp add: unmountComponentAtNode_def Let_def)
qed

lemma unmount_trace:
  "trace (unmountComponentAtNode d w) =
     trace w @ (case map_of (roots w) d of
                  None \<Rightarrow> []
                | Some inst \<Rightarrow> if callable (getField (props inst) ''onClosed'') then [CbClosed d] else [])"
  by (simp add: unmountComponentAtNode_def Let_def callable_def split: option.splits)

lemma unmount_timers:
  "timers (unmountComponentAtNode d w) =
     (case map_of (roots w) d of
        None \<Rightarrow> timers w
      | Some inst \<Rightarrow> filter (\<lambda>t. tid t \<noteq> timerRef inst) (timers w))"
  by (simp add: unmountComponentAtNode_def Let_def split: option.splits)

lemma cbInv_cong:
  "trace v = trace w \<Longrightarrow> nextId v = nextId w \<Longrightarrow> roots v = roots w
    \<Longrightarrow> MessageList v = MessageList w \<Longrightarrow> cbInv v = cbInv w"
  by (simp add: cbInv_def registered_def)

lemma keys_delete: "fst ` set (AList.delete d al) = fst ` set al - {d}"
proof -
  have "set (map fst (AList.delete d al)) = set (map fst al) - {d}"
    by (simp only: delete_keys set_removeAll)
  then show ?thesis by simp
qed

lemma mounted_iff: "d \<in> fst ` set (roots w) \<longleftrightarrow> map_of (roots w) d \<noteq> None"
  by (simp add: map_of_eq_None_iff)

lemma cbInv_msgClose:
  assumes "cbInv w"
  shows "cbInv (msgClose d w)"
proof (cases "map_of (roots w) d")
  case None
  then have "msgClose d w = w\<lparr> body := removeNode d (body w) \<rparr>"
    by (simp add: msgClose_def unmount_unmounted)
  then have "cbInv (msgClose d w) = cbInv w"
    by (intro cbInv_cong) simp_all
  with assms show ?thesis by simp
next
  case (Some inst)
  then have mem: "(d, inst) \<in> set (roots w)" by (rule map_of_SomeD)
  with assms have call: "callable (getField (props inst) ''onClosed'')" and lt: "d < nextId w"
    by (auto simp: cbInv_def)
  from mem have "d \<in> fst ` set (roots w)" by force
  with assms have notin: "d \<notin> set (closedIds (trace w))"
    by (auto simp: cbInv_def)
  have tr: "trace (unmountComponentAtNode d w) = trace w @ [CbClosed d]"
    using Some call by (simp add: unmount_trace)
  have ks: "fst ` set (roots (unmountComponentAtNode d w)) = fst ` set (roots w) - {d}"
    by (simp add: unmount_roots keys_delete)
  have sub: "set (roots (unmountComponentAtNode d w)) \<subseteq> set (roots w)"
    by (auto simp: unmount_roots AList.delete_eq)
  have 1: "distinct (closedIds (trace (msgClose d w)))"
    using assms notin by (simp add: cbInv_def tr)
  have 2: "\<forall>x \<in> set (closedIds (trace (msgClose d w))).
      x < nextId (msgClose d w) \<and> x \<notin> set (map fst (roots (msgClose d w)))"
    using assms lt ks by (auto simp: cbInv_def tr)
  have 3: "\<forall>p \<in> set (roots (msgClose d w)).
      fst p < nextId (msgClose d w) \<and> callable (getField (props (snd p)) ''onClosed'')"
    using assms sub by (auto simp: cbInv_def)
  have 4: "distinct (map fst (roots (msgClose d w)))"
    using assms by (simp add: cbInv_def unmount_roots distinct_delete)
  have 5: "distinct (registered (msgClose d w))"
    using assms by (simp add: cbInv_def registered_def)
  have 6: "\<forall>x \<in> set (registered (msgClose d w)).
      x \<in> set (map fst (roots (msgClose d w))) \<or> x \<in> set (closedIds (trace (msgClose d w)))"
  proof
    fix x assume "x \<in> set (registered (msgClose d w))"
    then have "x \<in> set (registered w)" by (simp add: registered_def)
    with assms have "x \<in> fst ` set (roots w) \<or> x \<in> set (closedIds (trace w))"
      by (simp add: cbInv_def)
    then show "x \<in> set (map fst (roots (msgClose d w)))
        \<or> x \<in> set (closedIds (trace (msgClose d w)))"
      using ks tr by (cases "x = d") auto
  qed
  have 7: "\<forall>x \<in> set (map fst (roots (msgClose d w))). x \<in> set (registered (msgClose d w))"
    using assms ks by (auto simp: cbInv_def registered_def)
  show ?thesis
    unfolding cbInv_def using 1 2 3 4 5 6 7 by blast
qed

lemma cbInv_trace_DurationEnd:
  "cbInv (w\<lparr> trace := trace w @ [CbDurationEnd d a] \<rparr>) = cbInv w"
  by (simp add: cbInv_def registered_def)

lemma cbInv_timers_now:
  "cbInv (w\<lparr> timers := ts, now := n \<rparr>) = cbInv w"
  by (intro cbInv_cong) simp_all

lemma cbInv_fire:
  assumes "cbInv w"
  shows "cbInv (fire t w)"
proof -
  let ?c = "w\<lparr> trace := trace w @ [CbDurationEnd (owner t) (Obj [(''close'', CloseOp (owner t))])] \<rparr>"
  have c: "cbInv ?c" using assms by (simp add: cbInv_trace_DurationEnd)
  have c1: "cbInv (msgClose (owner t) ?c)" using c by (rule cbInv_msgClose)
  have c2: "cbInv (msgClose (owner t) (msgClose (owner t) ?c))" using c1 by (rule cbInv_msgClose)
  show ?thesis
    using assms c c1 c2 fire_cases[of t w] by auto
qed

lemma cbInv_runTimers:
  "cbInv w \<Longrightarrow> cbInv (runTimers T w)"
proof (induction T w rule: runTimers.induct)
  case (1 T w)
  show ?case
  proof (cases "nextDue T (timers w)")
    case None
    have "cbInv (w\<lparr> now := max (now w) T \<rparr>) = cbInv w"
      by (intro cbInv_cong) simp_all
    with "1.prems" None show ?thesis
      by (subst runTimers.simps) simp
  next
    case (Some t)
    let ?v = "w\<lparr> timers := filter (\<lambda>u. tid u \<noteq> tid t) (timers w), now := max (now w) (due t) \<rparr>"
    have "cbInv ?v" using "1.prems" by (simp add: cbInv_timers_now)
    then have "cbInv (fire t ?v)" by (rule cbInv_fire)
    with "1.IH"[OF Some] Some show ?thesis
      by (subst runTimers.simps) simp
  qed
qed

lemma cbInv_foldl_close:
  "cbInv w \<Longrightarrow> cbInv (foldl (\<lambda>v h. callClose (close h) v) w hs)"
proof (induction hs arbitrary: w)
  case Nil
  then show ?case by simp
next
  case (Cons h hs)
  obtain d where d: "close h = CloseOp d" by (cases "close h")
  from Cons.prems have "cbInv (msgClose d w)" by (rule cbInv_msgClose)
  from Cons.IH[OF this] d show ?case by simp
qed

lemma rootProps_keys: "map fst (rootProps w) = map fst (roots w)"
  by (simp add: rootProps_def comp_def)

lemma map_update:
  "map (\<lambda>p. (fst p, f (snd p))) (AList.update k v al) = AList.update k (f v) (map (\<lambda>p. (fst p, f (snd p))) al)"
  by (induction al) auto

lemma map_of_map_snd:
  "map_of (map (\<lambda>p. (fst p, f (snd p))) al) d = map_option f (map_of al d)"
  by (induction al) auto

lemma map_of_rootProps: "map_of (rootProps w) d = map_option props (map_of (roots w) d)"
  by (simp add: rootProps_def map_of_map_snd)

lemma cbInv_rootProps:
  "cbInv w \<longleftrightarrow>
     distinct (closedIds (trace w))
   \<and> (\<forall>d \<in> set (closedIds (trace w)). d < nextId w \<and> d \<notin> set (map fst (rootProps w)))
   \<and> (\<forall>q \<in> set (rootProps w). fst q < nextId w \<and> callable (getField (snd q) ''onClosed''))
   \<and> distinct (map fst (rootProps w))
   \<and> distinct (registered w)
   \<and> (\<forall>d \<in> set (registered w).
         d \<in> set (map fst (rootProps w)) \<or> d \<in> set (closedIds (trace w)))
   \<and> (\<forall>d \<in> set (map fst (rootProps w)). d \<in> set (registered w))"
  unfolding cbInv_def rootProps_keys by (simp add: rootProps_def)

lemma cbInv_cong2:
  "trace v = trace w \<Longrightarrow> nextId v = nextId w \<Longrightarrow> rootProps v = rootProps w
    \<Longrightarrow> MessageList v = MessageList w \<Longrightarrow> cbInv v = cbInv w"
  by (simp add: cbInv_rootProps registered_def)

lemma rootProps_startDuration: "rootProps (startDuration d w) = rootProps w"
proof (cases "map_of (roots w) d")
  case None
  then show ?thesis by (simp add: startDuration_def)
next
  case (Some inst)
  then have "map_of (rootProps w) d = Some (props inst)"
    by (simp add: map_of_rootProps)
  then have "AList.update d (props inst) (rootProps w) = rootProps w"
    by (rule update_triv)
  with Some show ?thesis
    by (simp add: startDuration_def Let_def rootProps_def map_update)
qed

lemma rootProps_render:
  "rootProps (mountMessage ps d w) = AList.update d ps (rootProps w)"
proof -
  let ?w1 = "w\<lparr> roots := AList.update d \<lparr> props = ps, timerRef = 0 \<rparr> (roots w) \<rparr>"
  have "rootProps ?w1 = AList.update d ps (rootProps w)"
    by (simp add: rootProps_def map_update)
  then show ?thesis
    by (simp add: mountMessage_def Let_def rootProps_startDuration)
qed

lemma cbInv_startDuration: "cbInv (startDuration d w) = cbInv w"
  by (intro cbInv_cong2) (simp_all add: rootProps_startDuration)

lemma cbInv_mouseEnter: "cbInv (mouseEnter d w) = cbInv w"
  by (intro cbInv_cong) simp_all

lemma set_update_subset: "set (AList.update k v al) \<subseteq> insert (k, v) (set al)"
  by (induction al) auto

lemma cbInv_renderElement:
  assumes inv: "cbInv w"
    and r: "renderElement K th config w = Inr (p, w')"
    and ty: "callable (getField config ''onClosed'')"
  shows "cbInv w'"
proof -
  from renderElement_Inr[OF r] obtain c w1 ps where
    cc: "createContainer K config w = Inr (c, w1)" and
    w': "w' = (mountMessage ps (nextId w1)
                    (w1\<lparr> nextId := nextId w1 + 1, keyIndex := keyIndex w1 + 1 \<rparr>))
                  \<lparr> body := appendChild c (Elem (nextId w1) [] [] []) (body w1),
                    MessageList := MessageList w1 @ [\<lparr> close = CloseOp (nextId w1), key = keyIndex w1 + 1 \<rparr>] \<rparr>" and
    ps: "ps = messageProps th (offsetStyle (getField config ''offset'')) config"
    by blast
  note f = createContainer_fields[OF cc]
  let ?d = "nextId w1"
  have tr: "trace w' = trace w" using w' f by simp
  have nx: "nextId w' = ?d + 1" using w' by simp
  have rp: "rootProps w' = AList.update ?d ps (rootProps w)"
    using w' f by (simp add: rootProps_def[of "_\<lparr>body := _, MessageList := _\<rparr>"]
        rootProps_render[unfolded rootProps_def] rootProps_def)
  have rg: "registered w' = registered w @ [?d]"
    using w' f by (simp add: registered_def)
  have le: "nextId w \<le> ?d" using f by simp
  from inv have a1: "distinct (closedIds (trace w))"
    and a2: "\<forall>d \<in> set (closedIds (trace w)). d < nextId w \<and> d \<notin> set (map fst (rootProps w))"
    and a3: "\<forall>q \<in> set (rootProps w). fst q < nextId w \<and> callable (getField (snd q) ''onClosed'')"
    and a4: "distinct (map fst (rootProps w))"
    and a5: "distinct (registered w)"
    and a6: "\<forall>d \<in> set (registered w).
         d \<in> set (map fst (rootProps w)) \<or> d \<in> set (closedIds (trace w))"
    and a7: "\<forall>d \<in> set (map fst (rootProps w)). d \<in> set (registered w)"
    by (simp_all add: cbInv_rootProps)
  have keys: "fst ` set (rootProps w') = insert ?d (fst ` set (rootProps w))"
    using dom_update[of ?d ps "rootProps w"] by (simp add: rp)
  have call: "callable (getField ps ''onClosed'')"
    using ty by (simp add: ps getField_messageProps)
  have reg_lt: "\<forall>d \<in> set (registered w). d < nextId w"
    using a2 a3 a6 by fastforce
  have 1: "distinct (closedIds (trace w'))" using a1 tr by simp
  have 2: "\<forall>d \<in> set (closedIds (trace w')). d < nextId w' \<and> d \<notin> set (map fst (rootProps w'))"
    using a2 le by (auto simp: tr nx keys)
  have 3: "\<forall>q \<in> set (rootProps w'). fst q < nextId w' \<and> callable (getField (snd q) ''onClosed'')"
  proof
    fix q assume "q \<in> set (rootProps w')"
    with set_update_subset[of ?d ps "rootProps w"] have "q = (?d, ps) \<or> q \<in> set (rootProps w)"
      by (auto simp: rp)
    then show "fst q < nextId w' \<and> callable (getField (snd q) ''onClosed'')"
      using a3 le call by (auto simp: nx)
  qed
  have 4: "distinct (map fst (rootProps w'))"
    using a4 by (simp add: rp distinct_update)
  have 5: "distinct (registered w')"
    using a5 reg_lt le by (auto simp: rg)
  have 6: "\<forall>d \<in> set (registered w').
         d \<in> set (map fst (rootProps w')) \<or> d \<in> set (closedIds (trace w'))"
    using a6 by (auto simp: rg keys tr)
  have 7: "\<forall>d \<in> set (map fst (rootProps w')). d \<in> set (registered w')"
    using a7 by (auto simp: rg keys)
  show ?thesis
    unfolding cbInv_rootProps using 1 2 3 4 5 6 7 by blast
qed

subsection \<open>Closing everything\<close>

lemma msgClose_trace_mounted:
  assumes "cbInv w" and "d \<in> fst ` set (roots w)"
  shows "trace (msgClose d w) = trace w @ [CbClosed d]"
proof -
  from assms(2) obtain inst where m: "map_of (roots w) d = Some inst"
    by (auto simp: mounted_iff)
  then have "(d, inst) \<in> set (roots w)" by (rule map_of_SomeD)
  with assms(1) have "callable (getField (props inst) ''onClosed'')"
    by (auto simp: cbInv_def)
  with m show ?thesis by (simp add: unmount_trace)
qed

lemma msgClose_trace_unmounted:
  assumes "d \<notin> fst ` set (roots w)"
  shows "trace (msgClose d w) = trace w"
proof -
  from assms have "map_of (roots w) d = None" by (simp add: map_of_eq_None_iff)
  then show ?thesis by (simp add: unmount_trace)
qed

lemma msgClose_keys: "fst ` set (roots (msgClose d w)) = fst ` set (roots w) - {d}"
  by (simp add: unmount_roots keys_delete)

lemma foldl_close_trace:
  assumes "cbInv v" and "distinct (map (\<lambda>h. divOf (close h)) hs)"
  shows "trace (foldl (\<lambda>v h. callClose (close h) v) v hs) =
           trace v @ map CbClosed (filter (\<lambda>d. d \<in> fst ` set (roots v)) (map (\<lambda>h. divOf (close h)) hs))
       \<and> fst ` set (roots (foldl (\<lambda>v h. callClose (close h) v) v hs)) =
           fst ` set (roots v) - set (map (\<lambda>h. divOf (close h)) hs)"
  using assms
proof (induction hs arbitrary: v)
  case Nil
  then show ?case by simp
next
  case (Cons h hs)
  obtain d where d: "close h = CloseOp d" by (cases "close h")
  let ?v1 = "msgClose d v"
  have inv1: "cbInv ?v1" using Cons.prems(1) by (rule cbInv_msgClose)
  from Cons.prems(2) d have dist: "distinct (map (\<lambda>h. divOf (close h)) hs)"
    and notin: "d \<notin> set (map (\<lambda>h. divOf (close h)) hs)" by auto
  have same: "filter (\<lambda>x. x \<in> fst ` set (roots ?v1)) (map (\<lambda>h. divOf (close h)) hs)
            = filter (\<lambda>x. x \<in> fst ` set (roots v)) (map (\<lambda>h. divOf (close h)) hs)"
    using notin by (intro filter_cong) (auto simp: unmount_roots keys_delete)
  have tr1: "trace ?v1 = trace v @ (if d \<in> fst ` set (roots v) then [CbClosed d] else [])"
    using msgClose_trace_mounted[OF Cons.prems(1), of d] msgClose_trace_unmounted[of d v]
    by simp
  from Cons.IH[OF inv1 dist] same tr1 d show ?case
    by (auto simp: unmount_roots keys_delete)
qed

lemma cbInv_closeAll:
  assumes "cbInv w"
  shows "cbInv (closeAll w)"
proof -
  let ?f = "foldl (\<lambda>v h. callClose (close h) v) w (MessageList w)"
  have inv: "cbInv ?f"
    using assms by (rule cbInv_foldl_close)
  have dist: "distinct (map (\<lambda>h. divOf (close h)) (MessageList w))"
    using assms by (simp add: cbInv_def registered_def)
  from foldl_close_trace[OF assms dist]
  have "fst ` set (roots ?f) = fst ` set (roots w) - set (registered w)"
    by (simp add: registered_def)
  moreover from assms have "fst ` set (roots w) \<subseteq> set (registered w)"
    by (auto simp: cbInv_def)
  ultimately have "fst ` set (roots ?f) = {}" by auto
  then have "roots ?f = []" by simp
  with inv show ?thesis
    by (simp add: closeAll_def cbInv_def registered_def)
qed

lemma cbInv_grow:
  assumes "cbInv w" and "trace v = trace w" and "roots v = roots w"
    and "MessageList v = MessageList w" and "nextId w \<le> nextId v"
  shows "cbInv v"
proof -
  from assms(1) have a: "\<forall>d \<in> set (closedIds (trace w)). d < nextId w \<and> d \<notin> set (map fst (roots w))"
    and b: "\<forall>p \<in> set (roots w). fst p < nextId w \<and> callable (getField (props (snd p)) ''onClosed'')"
    by (simp_all add: cbInv_def)
  from a assms(5) have 2: "\<forall>d \<in> set (closedIds (trace w)). d < nextId v \<and> d \<notin> set (map fst (roots w))"
    by fastforce
  from b assms(5) have 3: "\<forall>p \<in> set (roots w). fst p < nextId v \<and> callable (getField (props (snd p)) ''onClosed'')"
    by fastforce
  from assms(1) 2 3 show ?thesis
    by (simp add: cbInv_def registered_def assms(2-4))
qed

lemma cbInv_step:
  assumes "cbInv w" and "typedEvent e"
  shows "cbInv (step K e w)"
proof (cases e)
  case (Create th content durationArg)
  show ?thesis
  proof (cases "factory K th content durationArg w")
    case (Inl a)
    note f = step_failed_fields[OF Inl]
    from assms(1) f(6,2,5,8) have "cbInv (step K (Create th content durationArg) w)"
      by (rule cbInv_grow)
    with Create show ?thesis by simp
  next
    case (Inr pw)
    obtain p w' where pw: "pw = (p, w')" by (cases pw)
    from Inr pw have "renderElement K th (factoryConfig content durationArg) w = Inr (p, w')"
      by (simp add: factory_def)
    from cbInv_renderElement[OF assms(1) this] assms(2) Create Inr pw show ?thesis by simp
  qed
next
  case (Close c)
  obtain d where "c = CloseOp d" by (cases c)
  with Close assms show ?thesis by (simp add: cbInv_msgClose)
next
  case CloseAll
  with assms show ?thesis by (simp add: cbInv_closeAll)
next
  case (MouseEnter d)
  with assms show ?thesis by (simp add: cbInv_mouseEnter)
next
  case (MouseLeave d)
  with assms show ?thesis by (simp add: mouseLeave_def cbInv_startDuration)
next
  case (Elapse n)
  with assms show ?thesis by (simp add: elapse_def cbInv_runTimers)
qed

lemma cbInv_run:
  "cbInv w \<Longrightarrow> list_all typedEvent evs \<Longrightarrow> cbInv (run K evs w)"
  by (induction evs arbitrary: w) (simp_all add: cbInv_step)

lemma cbInv_init: "cbInv init"
  by (simp add: cbInv_def init_def registered_def)

lemma cbInv_registered_distinct: "cbInv w \<Longrightarrow> distinct (registered w)"
  by (simp add: cbInv_def)

text \<open>
  C3. On a page that the module has produced, \<open>closeAll\<close> leaves \<open>MessageList\<close>
  empty; the \<open>onClosed\<close> callbacks it causes are those of the registered messages
  that were still mounted, in the order of \<open>MessageList\<close>; afterwards every message
  that was registered is unmounted and its \<open>onClosed\<close> has run exactly once in all,
  whether \<open>closeAll\<close> or an earlier \<open>close\<close> of its handle closed it; and on an empty
  \<open>MessageList\<close> \<open>closeAll\<close> changes nothing.
\<close>

theorem closeAll_closes_each_once:
  assumes "cbInv w"
  shows "MessageList (closeAll w) = []
       \<and> trace (closeAll w) =
           trace w @ map CbClosed (filter (\<lambda>d. d \<in> set (map fst (roots w))) (registered w))
       \<and> (\<forall>d \<in> set (registered w).
             timesClosed d (closeAll w) = 1 \<and> d \<notin> set (map fst (roots (closeAll w))))
       \<and> (MessageList w = [] \<longrightarrow> closeAll w = w)"
proof -
  let ?f = "foldl (\<lambda>v h. callClose (close h) v) w (MessageList w)"
  have dist: "distinct (map (\<lambda>h. divOf (close h)) (MessageList w))"
    using cbInv_registered_distinct[OF assms] by (simp add: registered_def)
  from foldl_close_trace[OF assms dist]
  have tr: "trace ?f = trace w @ map CbClosed (filter (\<lambda>d. d \<in> fst ` set (roots w)) (registered w))"
    and ks: "fst ` set (roots ?f) = fst ` set (roots w) - set (registered w)"
    by (simp_all add: registered_def)
  have tr': "trace (closeAll w) =
           trace w @ map CbClosed (filter (\<lambda>d. d \<in> set (map fst (roots w))) (registered w))"
    using tr by (simp add: closeAll_def)
  have inv': "cbInv (closeAll w)" using assms by (rule cbInv_closeAll)
  have each: "\<forall>d \<in> set (registered w).
             timesClosed d (closeAll w) = 1 \<and> d \<notin> set (map fst (roots (closeAll w)))"
  proof
    fix d assume d: "d \<in> set (registered w)"
    with assms have "d \<in> fst ` set (roots w) \<or> d \<in> set (closedIds (trace w))"
      by (simp add: cbInv_def)
    then have "d \<in> set (closedIds (trace (closeAll w)))"
      using d by (auto simp: tr' comp_def)
    moreover from inv' have "distinct (closedIds (trace (closeAll w)))"
      by (simp add: cbInv_def)
    ultimately have "timesClosed d (closeAll w) = 1"
      by (simp add: timesClosed_one)
    moreover have "d \<notin> set (map fst (roots (closeAll w)))"
      using ks d by (simp add: closeAll_def)
    ultimately show "timesClosed d (closeAll w) = 1 \<and> d \<notin> set (map fst (roots (closeAll w)))"
      by simp
  qed
  have "MessageList w = [] \<longrightarrow> closeAll w = w"
    by (simp add: closeAll_def)
  with tr' each show ?thesis by simp
qed

lemma threeMessages_eval:
  "threeMessages =
    \<lparr>now = 0,
      body = Elem 0 [] []
         [Elem 1 [''t-message-list'']
           [(''zIndex'', StringOf (VNum 6000)), (''left'', Lit ''50%''), (''top'', Lit ''32px'')]
           [Elem 2 [] [] [], Elem 4 [] [] []]],
      nextId = 5,
      roots =
        [(2, \<lparr>props =
                [(''theme'', VStr ''info''), (''style'', VObject []),
                 (''zIndex'', VNum 6000), (''duration'', VNum 3000),
                 (''content'', VStr ''a''), (''children'', VStr ''a'')],
                timerRef = 1\<rparr>),
         (4, \<lparr>props =
                [(''theme'', VStr ''success''), (''style'', VObject []),
                 (''zIndex'', VNum 6000), (''duration'', VNum 0),
                 (''content'', VStr ''c''), (''children'', VStr ''c'')],
                timerRef = 3\<rparr>)],
      timers =
        [\<lparr>tid = 1, due = 3000, owner = 2, cbDurationEnd = VUndefined\<rparr>,
         \<lparr>tid = 3, due = 0, owner = 4, cbDurationEnd = VUndefined\<rparr>],
      nextTimer = 4,
      MessageList =
        [\<lparr>close = CloseOp 2, key = 2\<rparr>, \<lparr>close = CloseOp 3, key = 3\<rparr>,
         \<lparr>close = CloseOp 4, key = 4\<rparr>],
      keyIndex = 4, trace = [CbClosed 3]\<rparr>"
  by code_simp

theorem closeAll_closes_each_once_witness:
  "cbInv threeMessages
   \<and> registered threeMessages = [2, 3, 4]
   \<and> trace threeMessages = [CbClosed 3]
   \<and> MessageList (closeAll threeMessages) = []
   \<and> trace (closeAll threeMessages) = [CbClosed 3, CbClosed 2, CbClosed 4]
   \<and> timesClosed 2 (closeAll threeMessages) = 1
   \<and> timesClosed 3 (closeAll threeMessages) = 1
   \<and> timesClosed 4 (closeAll threeMessages) = 1"
proof -
  have h: "cbInv threeMessages"
    by (simp add: threeMessages_eval cbInv_def registered_def callable_def getField_def)
  have e1: "registered threeMessages = [2, 3, 4]"
    by (simp add: threeMessages_eval registered_def)
  have e2: "trace threeMessages = [CbClosed 3]"
    by (simp add: threeMessages_eval)
  have e3: "map fst (roots threeMessages) = [2, 4]"
    by (simp add: threeMessages_eval)
  from closeAll_closes_each_once[OF h] show ?thesis
    unfolding e1 e2 e3 using h by simp
qed

subsection \<open>The timer callback\<close>

lemma trace_msgClose_prefix: "\<exists>xs. trace (msgClose d w) = trace w @ xs"
  by (simp add: unmount_trace)

lemma closed_stays_msgClose:
  "set (closedIds (trace w)) \<subseteq> set (closedIds (trace (msgClose d w)))"
  using trace_msgClose_prefix[of d w] by auto

lemma closed_stays_fire:
  "set (closedIds (trace w)) \<subseteq> set (closedIds (trace (fire t w)))"
proof -
  let ?c = "w\<lparr> trace := trace w @ [CbDurationEnd (owner t) (Obj [(''close'', CloseOp (owner t))])] \<rparr>"
  have a: "set (closedIds (trace w)) \<subseteq> set (closedIds (trace (msgClose (owner t) ?c)))"
    using closed_stays_msgClose[of ?c "owner t"] by simp
  have b: "set (closedIds (trace w)) \<subseteq> set (closedIds (trace (msgClose (owner t) (msgClose (owner t) ?c))))"
    using a closed_stays_msgClose[of "msgClose (owner t) ?c" "owner t"] by blast
  show ?thesis
    using a b fire_cases[of t w] by auto
qed

lemma closed_stays_runTimers:
  "set (closedIds (trace w)) \<subseteq> set (closedIds (trace (runTimers T w)))"
proof (induction T w rule: runTimers.induct)
  case (1 T w)
  show ?case
  proof (cases "nextDue T (timers w)")
    case None
    then show ?thesis by (subst runTimers.simps) simp
  next
    case (Some t)
    let ?v = "w\<lparr> timers := filter (\<lambda>u. tid u \<noteq> tid t) (timers w), now := max (now w) (due t) \<rparr>"
    have "set (closedIds (trace w)) \<subseteq> set (closedIds (trace (fire t ?v)))"
      using closed_stays_fire[of ?v t] by simp
    with "1.IH"[OF Some] Some show ?thesis
      by (subst runTimers.simps) auto
  qed
qed

lemma closed_stays_foldl:
  "set (closedIds (trace w)) \<subseteq> set (closedIds (trace (foldl (\<lambda>v h. callClose (close h) v) w hs)))"
proof (induction hs arbitrary: w)
  case Nil
  show ?case by simp
next
  case (Cons h hs)
  obtain d where d: "close h = CloseOp d" by (cases "close h")
  from closed_stays_msgClose[of w d] Cons.IH[of "msgClose d w"] d show ?case by auto
qed

lemma closed_stays_step:
  "set (closedIds (trace w)) \<subseteq> set (closedIds (trace (step K e w)))"
proof (cases e)
  case (Create th content durationArg)
  show ?thesis
  proof (cases "factory K th content durationArg w")
    case (Inl a)
    from step_failed_fields(6)[OF Inl] Create show ?thesis by simp
  next
    case (Inr pw)
    obtain p w' where pw: "pw = (p, w')" by (cases pw)
    from Inr pw have "renderElement K th (factoryConfig content durationArg) w = Inr (p, w')"
      by (simp add: factory_def)
    from renderElement_fields(4)[OF this] Create Inr pw show ?thesis by simp
  qed
next
  case (Close c)
  obtain d where "c = CloseOp d" by (cases c)
  with Close closed_stays_msgClose[of w d] show ?thesis by simp
next
  case CloseAll
  with closed_stays_foldl[of w "MessageList w"] show ?thesis by (simp add: closeAll_def)
next
  case (Elapse n)
  with closed_stays_runTimers[of w "now w + n"] show ?thesis by (simp add: elapse_def)
qed simp_all

lemma closed_stays_run:
  "set (closedIds (trace w)) \<subseteq> set (closedIds (trace (run K evs w)))"
proof (induction evs arbitrary: w)
  case Nil
  show ?case by simp
next
  case (Cons e es)
  from closed_stays_step[of w K e] Cons.IH[of "step K e w"] show ?case by auto
qed

lemma closed_once_forever:
  assumes "cbInv v" and "d \<in> set (closedIds (trace v))" and "list_all typedEvent evs"
  shows "timesClosed d (run K evs v) = 1"
proof -
  have "cbInv (run K evs v)" using assms(1,3) by (rule cbInv_run)
  then have "distinct (closedIds (trace (run K evs v)))" by (simp add: cbInv_def)
  moreover have "d \<in> set (closedIds (trace (run K evs v)))"
    using assms(2) closed_stays_run[of v K evs] by auto
  ultimately show ?thesis by (rule timesClosed_one)
qed

lemma fire_trace:
  assumes inv: "cbInv w" and m: "owner t \<in> fst ` set (roots w)" and c: "takesObject (cbDurationEnd t)"
  shows "trace (fire t w) =
           trace w @ [CbDurationEnd (owner t) (Obj [(''close'', CloseOp (owner t))]), CbClosed (owner t)]"
proof -
  let ?d = "owner t"
  let ?c = "w\<lparr> trace := trace w @ [CbDurationEnd ?d (Obj [(''close'', CloseOp ?d)])] \<rparr>"
  have invc: "cbInv ?c" using inv by (simp add: cbInv_trace_DurationEnd)
  have mc: "?d \<in> fst ` set (roots ?c)" using m by simp
  have one: "trace (msgClose ?d ?c) = trace w @ [CbDurationEnd ?d (Obj [(''close'', CloseOp ?d)]), CbClosed ?d]"
    using msgClose_trace_mounted[OF invc mc] by simp
  have "?d \<notin> fst ` set (roots (msgClose ?d ?c))"
    by (simp add: unmount_roots keys_delete)
  from msgClose_trace_unmounted[OF this]
  have two: "trace (msgClose ?d (msgClose ?d ?c)) = trace (msgClose ?d ?c)" .
  from c show ?thesis
    using one two
    by (cases "cbDurationEnd t" rule: takesObject.cases) (auto simp: fire_def Let_def)
qed

lemma fire_calls_first:
  assumes "callable (cbDurationEnd t)"
  shows "\<exists>xs. trace (fire t w) =
           trace w @ CbDurationEnd (owner t) (Obj [(''close'', CloseOp (owner t))]) # xs"
proof -
  let ?d = "owner t"
  let ?c = "w\<lparr> trace := trace w @ [CbDurationEnd ?d (Obj [(''close'', CloseOp ?d)])] \<rparr>"
  from trace_msgClose_prefix[of ?d ?c] obtain xs where
    1: "trace (msgClose ?d ?c) = trace ?c @ xs" by blast
  from trace_msgClose_prefix[of ?d "msgClose ?d ?c"] obtain ys where
    2: "trace (msgClose ?d (msgClose ?d ?c)) = trace (msgClose ?d ?c) @ ys" by blast
  from 1 have a: "trace (msgClose ?d ?c) =
      trace w @ CbDurationEnd ?d (Obj [(''close'', CloseOp ?d)]) # xs" by simp
  from 2 a have b: "trace (msgClose ?d (msgClose ?d ?c)) =
      trace w @ CbDurationEnd ?d (Obj [(''close'', CloseOp ?d)]) # (xs @ ys)" by simp
  have c: "trace ?c = trace w @ CbDurationEnd ?d (Obj [(''close'', CloseOp ?d)]) # []" by simp
  from assms have "fire t w = ?c \<or> fire t w = msgClose ?d ?c
      \<or> fire t w = msgClose ?d (msgClose ?d ?c)"
  proof (cases "cbDurationEnd t")
    case (VFun f)
    then show ?thesis by (cases f) (simp_all add: fire_def Let_def)
  qed (simp_all add: callable_def fire_def Let_def)
  then consider "fire t w = ?c" | "fire t w = msgClose ?d ?c"
    | "fire t w = msgClose ?d (msgClose ?d ?c)" by blast
  then show ?thesis
  proof cases
    case 1
    with c show ?thesis by metis
  next
    case 2
    with a show ?thesis by metis
  next
    case 3
    with b show ?thesis by metis
  qed
qed

lemma timesClosed_le_one: "cbInv v \<Longrightarrow> timesClosed d v \<le> 1"
proof (cases "d \<in> set (closedIds (trace v))")
  case True
  assume "cbInv v"
  then have "distinct (closedIds (trace v))" by (simp add: cbInv_def)
  from timesClosed_one[OF this True] show ?thesis by simp
next
  case False
  from timesClosed_zero[OF False] show ?thesis by simp
qed

text \<open>
  C8, as claimed: the handler \<open>onDurationEnd\<close> receives the close operation. On a
  fresh page with one message of 100 ms, the handler is called with the object
  \<open>{ close }\<close>, which is not the close operation. A handler that calls what it
  receives, as the claim has it, throws for that reason: after 100 ms it has been
  called, \<open>close()\<close> after it has not run and neither has \<open>onClosed\<close>, and the
  message is still mounted, with no timer left to close it.
\<close>

theorem onDurationEnd_receives_close_counterexample:
  "trace (elapse 100 timedMessage) = [CbDurationEnd 2 (Obj [(''close'', CloseOp 2)]), CbClosed 2]
   \<and> Obj [(''close'', CloseOp 2)] \<noteq> Fn (CloseOp 2)
   \<and> timers argumentCalled = [\<lparr>tid = 1, due = 100, owner = 2, cbDurationEnd = VFun (CallsArg 1)\<rparr>]
   \<and> trace (elapse 100 argumentCalled) = [CbDurationEnd 2 (Obj [(''close'', CloseOp 2)])]
   \<and> map fst (roots (elapse 100 argumentCalled)) = [2]
   \<and> timers (elapse 100 argumentCalled) = []
   \<and> timesClosed 2 (elapse 100 argumentCalled) = 0"
  by code_simp

text \<open>
  C8, amended. When the timer of a mounted message fires and \<open>onDurationEnd\<close> can be
  called, it is invoked first, with the object \<open>{ close }\<close> whose property \<open>close\<close>
  is the close operation of this message. When the handler returns, the message is
  closed after that, which invokes \<open>onClosed\<close>, and nothing else is invoked. Before,
  \<open>onClosed\<close> had not run. After the timer of a handler that returns has fired, after
  a call of the handle's \<open>close\<close>, or after \<open>closeAll\<close>, it has run exactly once, and
  whatever events follow it never runs again; and whatever the handler does, the timer
  never makes it run twice. The callbacks \<open>onClosed\<close> have their declared type
  (\<open>typedEvent\<close>).
\<close>

theorem timer_hands_close_object_then_closes:
  assumes inv: "cbInv w"
    and m: "(d, inst) \<in> set (roots w)"
    and t: "owner t = d" "cbDurationEnd t = getField (props inst) ''onDurationEnd''"
  shows "(callable (getField (props inst) ''onDurationEnd'') \<longrightarrow>
            (\<exists>xs. trace (fire t w) = trace w @ CbDurationEnd d (Obj [(''close'', CloseOp d)]) # xs))
       \<and> (takesObject (getField (props inst) ''onDurationEnd'') \<longrightarrow>
            trace (fire t w) = trace w @ [CbDurationEnd d (Obj [(''close'', CloseOp d)]), CbClosed d]
          \<and> d \<notin> set (map fst (roots (fire t w)))
          \<and> (\<forall>evs. list_all typedEvent evs \<longrightarrow> timesClosed d (run K evs (fire t w)) = 1))
       \<and> timesClosed d w = 0
       \<and> (\<forall>evs. list_all typedEvent evs \<longrightarrow>
              timesClosed d (run K evs (fire t w)) \<le> 1
            \<and> timesClosed d (run K evs (callClose (CloseOp d) w)) = 1
            \<and> timesClosed d (run K evs (closeAll w)) = 1)"
proof -
  from m have md: "d \<in> fst ` set (roots w)" by force
  have invf: "cbInv (fire t w)" using inv by (rule cbInv_fire)
  have first: "callable (getField (props inst) ''onDurationEnd'') \<longrightarrow>
            (\<exists>xs. trace (fire t w) = trace w @ CbDurationEnd d (Obj [(''close'', CloseOp d)]) # xs)"
    using fire_calls_first[of t w] t by simp
  have ret: "takesObject (getField (props inst) ''onDurationEnd'') \<longrightarrow>
            trace (fire t w) = trace w @ [CbDurationEnd d (Obj [(''close'', CloseOp d)]), CbClosed d]
          \<and> d \<notin> set (map fst (roots (fire t w)))
          \<and> (\<forall>evs. list_all typedEvent evs \<longrightarrow> timesClosed d (run K evs (fire t w)) = 1)"
  proof
    assume c: "takesObject (getField (props inst) ''onDurationEnd'')"
    have tr: "trace (fire t w) = trace w @ [CbDurationEnd d (Obj [(''close'', CloseOp d)]), CbClosed d]"
      using fire_trace[OF inv, of t] md t c by simp
    have inf: "d \<in> set (closedIds (trace (fire t w)))" by (simp add: tr)
    from invf inf have "d \<notin> fst ` set (roots (fire t w))"
      by (auto simp: cbInv_def)
    then have un: "d \<notin> set (map fst (roots (fire t w)))" by simp
    from tr un closed_once_forever[OF invf inf]
    show "trace (fire t w) = trace w @ [CbDurationEnd d (Obj [(''close'', CloseOp d)]), CbClosed d]
          \<and> d \<notin> set (map fst (roots (fire t w)))
          \<and> (\<forall>evs. list_all typedEvent evs \<longrightarrow> timesClosed d (run K evs (fire t w)) = 1)"
      by blast
  qed
  have most: "\<forall>evs. list_all typedEvent evs \<longrightarrow> timesClosed d (run K evs (fire t w)) \<le> 1"
    using cbInv_run[OF invf] timesClosed_le_one by blast
  from inv md have "d \<notin> set (closedIds (trace w))" by (auto simp: cbInv_def)
  then have zero: "timesClosed d w = 0" by (rule timesClosed_zero)
  have invc: "cbInv (callClose (CloseOp d) w)" using inv by (simp add: cbInv_msgClose)
  have inc: "d \<in> set (closedIds (trace (callClose (CloseOp d) w)))"
    using msgClose_trace_mounted[OF inv md] by simp
  have inva: "cbInv (closeAll w)" using inv by (rule cbInv_closeAll)
  from inv md have "d \<in> set (registered w)" by (auto simp: cbInv_def)
  with foldl_close_trace[OF inv, of "MessageList w"] inv md
  have ina: "d \<in> set (closedIds (trace (closeAll w)))"
    by (auto simp: closeAll_def cbInv_def registered_def comp_def)
  show ?thesis
    using first ret most zero closed_once_forever[OF invc inc] closed_once_forever[OF inva ina]
    by blast
qed

lemma timedMessage_eval:
  "timedMessage =
    \<lparr>now = 0,
      body = Elem 0 [] []
         [Elem 1 [''t-message-list'']
           [(''zIndex'', StringOf (VNum 6000)), (''left'', Lit ''50%''), (''top'', Lit ''32px'')]
           [Elem 2 [] [] []]],
      nextId = 3,
      roots =
        [(2, \<lparr>props =
                [(''theme'', VStr ''info''), (''style'', VObject []),
                 (''zIndex'', VNum 6000), (''content'', VStr ''saved''),
                 (''onDurationEnd'', VFun (CallsClose 1)),
                 (''duration'', VNum 100), (''children'', VStr ''saved'')],
                timerRef = 1\<rparr>)],
      timers = [\<lparr>tid = 1, due = 100, owner = 2, cbDurationEnd = VFun (CallsClose 1)\<rparr>],
      nextTimer = 2, MessageList = [\<lparr>close = CloseOp 2, key = 2\<rparr>],
      keyIndex = 2, trace = []\<rparr>"
  by code_simp

theorem timer_hands_close_object_then_closes_witness:
  "cbInv timedMessage
   \<and> takesObject (VFun (CallsClose 1))
   \<and> trace (fire \<lparr>tid = 1, due = 100, owner = 2, cbDurationEnd = VFun (CallsClose 1)\<rparr> timedMessage)
       = [CbDurationEnd 2 (Obj [(''close'', CloseOp 2)]), CbClosed 2]
   \<and> timesClosed 2 timedMessage = 0
   \<and> timesClosed 2 (run exampleEnv [Close (CloseOp 2), CloseAll, Elapse 200]
         (fire \<lparr>tid = 1, due = 100, owner = 2, cbDurationEnd = VFun (CallsClose 1)\<rparr> timedMessage)) = 1
   \<and> timesClosed 2 (run exampleEnv [Elapse 200, CloseAll] (callClose (CloseOp 2) timedMessage)) = 1
   \<and> timesClosed 2 (run exampleEnv [Close (CloseOp 2), Elapse 200] (closeAll timedMessage)) = 1
   \<and> trace (elapse 100 timedMessage) = [CbDurationEnd 2 (Obj [(''close'', CloseOp 2)]), CbClosed 2]"
proof -
  let ?inst = "\<lparr>props =
                [(''theme'', VStr ''info''), (''style'', VObject []),
                 (''zIndex'', VNum 6000), (''content'', VStr ''saved''),
                 (''onDurationEnd'', VFun (CallsClose 1)),
                 (''duration'', VNum 100), (''children'', VStr ''saved'')],
                timerRef = 1\<rparr>"
  let ?t = "\<lparr>tid = 1, due = 100, owner = 2, cbDurationEnd = VFun (CallsClose 1)\<rparr>"
  have h1: "cbInv timedMessage"
    by (simp add: timedMessage_eval cbInv_def registered_def callable_def getField_def)
  have h2: "(2, ?inst) \<in> set (roots timedMessage)"
    by (simp add: timedMessage_eval)
  have h3: "owner ?t = 2" by simp
  have h4: "cbDurationEnd ?t = getField (props ?inst) ''onDurationEnd''"
    by (simp add: getField_def)
  have h5: "takesObject (getField (props ?inst) ''onDurationEnd'')"
    by (simp add: getField_def)
  have tr: "trace timedMessage = []"
    by (simp add: timedMessage_eval)
  have el: "trace (elapse 100 timedMessage) = [CbDurationEnd 2 (Obj [(''close'', CloseOp 2)]), CbClosed 2]"
    unfolding timedMessage_eval by code_simp
  have h6: "takesObject (VFun (CallsClose 1))" by simp
  note th = timer_hands_close_object_then_closes[OF h1 h2 h3 h4, of exampleEnv]
  from th h5 have a: "trace (fire ?t timedMessage) = [CbDurationEnd 2 (Obj [(''close'', CloseOp 2)]), CbClosed 2]"
    by (simp add: tr)
  from th have z: "timesClosed 2 timedMessage = 0"
    by simp
  from th h5 have later: "\<And>evs. list_all typedEvent evs \<Longrightarrow>
              timesClosed 2 (run exampleEnv evs (fire ?t timedMessage)) = 1
            \<and> timesClosed 2 (run exampleEnv evs (callClose (CloseOp 2) timedMessage)) = 1
            \<and> timesClosed 2 (run exampleEnv evs (closeAll timedMessage)) = 1"
    by blast
  have t1: "list_all typedEvent [Close (CloseOp 2), CloseAll, Elapse 200]" by simp
  have t2: "list_all typedEvent [Elapse 200, CloseAll]" by simp
  have t3: "list_all typedEvent [Close (CloseOp 2), Elapse 200]" by simp
  from later[OF t1] later[OF t2] later[OF t3] a z el h1 h6 show ?thesis
    by blast
qed

subsection \<open>Timers and the messages that own them\<close>

lemma tmInv_timer_owner:
  assumes "tmInv w" and "t \<in> set (timers w)"
  shows "\<exists>inst. map_of (roots w) (owner t) = Some inst \<and> timerRef inst = tid t
          \<and> due t \<le> now w + delayOf (getField (props inst) ''duration'')
          \<and> 0 < tid t \<and> tid t < nextTimer w"
proof -
  from assms have "0 < tid t \<and> tid t < nextTimer w
       \<and> (case map_of (roots w) (owner t) of
             None \<Rightarrow> False
           | Some inst \<Rightarrow> timerRef inst = tid t
               \<and> due t \<le> now w + delayOf (getField (props inst) ''duration''))"
    unfolding tmInv_def by blast
  then show ?thesis
    by (cases "map_of (roots w) (owner t)") simp_all
qed

lemma tmInv_root:
  assumes "tmInv w" and "map_of (roots w) d = Some inst"
  shows "timerRef inst < nextTimer w \<and> d < nextId w"
proof -
  from assms(2) have "(d, inst) \<in> set (roots w)" by (rule map_of_SomeD)
  with assms(1) show ?thesis by (auto simp: tmInv_def)
qed

text \<open>Dropping timers, letting time pass and making new elements keep the invariant.\<close>

lemma tmInv_weaken:
  assumes inv: "tmInv w"
    and ts: "timers v = filter P (timers w)"
    and rs: "roots v = roots w"
    and nt: "nextTimer v = nextTimer w"
    and nw: "now w \<le> now v"
    and ni: "nextId w \<le> nextId v"
  shows "tmInv v"
proof -
  have 1: "distinct (map tid (timers v))"
    using inv by (simp add: tmInv_def ts distinct_map_filter)
  have 4: "\<forall>t \<in> set (timers v).
         0 < tid t \<and> tid t < nextTimer v
       \<and> (case map_of (roots v) (owner t) of
             None \<Rightarrow> False
           | Some inst \<Rightarrow> timerRef inst = tid t
               \<and> due t \<le> now v + delayOf (getField (props inst) ''duration''))"
  proof
    fix t assume "t \<in> set (timers v)"
    then have "t \<in> set (timers w)" by (simp add: ts)
    from tmInv_timer_owner[OF inv this] nw show "0 < tid t \<and> tid t < nextTimer v
       \<and> (case map_of (roots v) (owner t) of
             None \<Rightarrow> False
           | Some inst \<Rightarrow> timerRef inst = tid t
               \<and> due t \<le> now v + delayOf (getField (props inst) ''duration''))"
      by (auto simp: rs nt)
  qed
  have 5: "\<forall>p \<in> set (roots v). timerRef (snd p) < nextTimer v \<and> fst p < nextId v"
    using inv ni by (fastforce simp: tmInv_def rs nt)
  from inv have "distinct (map fst (roots v))" "0 < nextTimer v"
    by (simp_all add: tmInv_def rs nt)
  with 1 4 5 show ?thesis unfolding tmInv_def by blast
qed

lemma tmInv_clearTimeout: "tmInv w \<Longrightarrow> tmInv (clearTimeout i w)"
  by (rule tmInv_weaken[where w = w and P = "\<lambda>t. tid t \<noteq> i"]) simp_all

lemma tmInv_mouseEnter: "tmInv w \<Longrightarrow> tmInv (mouseEnter d w)"
  by (simp add: mouseEnter_def tmInv_clearTimeout split: option.splits)

lemma tmInv_I:
  assumes "distinct (map tid (timers v))" "distinct (map fst (roots v))" "0 < nextTimer v"
    and "\<And>t. t \<in> set (timers v) \<Longrightarrow> 0 < tid t \<and> tid t < nextTimer v
          \<and> (\<exists>inst. map_of (roots v) (owner t) = Some inst \<and> timerRef inst = tid t
                \<and> due t \<le> now v + delayOf (getField (props inst) ''duration''))"
    and "\<And>d inst. (d, inst) \<in> set (roots v) \<Longrightarrow> timerRef inst < nextTimer v \<and> d < nextId v"
  shows "tmInv v"
proof -
  have 4: "\<forall>t \<in> set (timers v).
         0 < tid t \<and> tid t < nextTimer v
       \<and> (case map_of (roots v) (owner t) of
             None \<Rightarrow> False
           | Some inst \<Rightarrow> timerRef inst = tid t
               \<and> due t \<le> now v + delayOf (getField (props inst) ''duration''))"
  proof
    fix t assume "t \<in> set (timers v)"
    from assms(4)[OF this] show "0 < tid t \<and> tid t < nextTimer v
       \<and> (case map_of (roots v) (owner t) of
             None \<Rightarrow> False
           | Some inst \<Rightarrow> timerRef inst = tid t
               \<and> due t \<le> now v + delayOf (getField (props inst) ''duration''))"
      by auto
  qed
  have 5: "\<forall>p \<in> set (roots v). timerRef (snd p) < nextTimer v \<and> fst p < nextId v"
    using assms(5) by auto
  from assms(1-3) 4 5 show ?thesis unfolding tmInv_def by blast
qed

lemma tmInv_D:
  assumes "tmInv w"
  shows "distinct (map tid (timers w))" "distinct (map fst (roots w))" "0 < nextTimer w"
    and "\<And>d inst. (d, inst) \<in> set (roots w) \<Longrightarrow> timerRef inst < nextTimer w \<and> d < nextId w"
  using assms by (auto simp: tmInv_def)

lemma tmInv_startDuration:
  assumes inv: "tmInv w"
  shows "tmInv (startDuration d w)"
proof (cases "map_of (roots w) d")
  case None
  with inv show ?thesis by (simp add: startDuration_def)
next
  case (Some inst)
  let ?nt = "nextTimer w"
  let ?tn = "\<lparr> tid = ?nt, due = now w + delayOf (getField (props inst) ''duration''),
               owner = d, cbDurationEnd = getField (props inst) ''onDurationEnd'' \<rparr>"
  let ?inst' = "inst\<lparr> timerRef := ?nt \<rparr>"
  let ?w1 = "clearTimeout (timerRef inst) w"
  let ?v = "startDuration d w"
  have inv1: "tmInv ?w1" using inv by (rule tmInv_clearTimeout)
  have tv: "timers ?v = timers ?w1 @ [?tn]"
    and rv: "roots ?v = AList.update d ?inst' (roots w)"
    and nv: "nextTimer ?v = ?nt + 1"
    using Some by (simp_all add: startDuration_def Let_def)
  show ?thesis
  proof (rule tmInv_I)
    have "\<forall>t \<in> set (timers ?w1). tid t < ?nt"
      using tmInv_timer_owner[OF inv1] by fastforce
    then have "?nt \<notin> tid ` set (timers ?w1)" by auto
    with tmInv_D(1)[OF inv1] show "distinct (map tid (timers ?v))"
      by (simp add: tv)
  next
    show "distinct (map fst (roots ?v))"
      using tmInv_D(2)[OF inv] by (simp add: rv distinct_update)
  next
    show "0 < nextTimer ?v" by (simp add: nv)
  next
    fix t assume "t \<in> set (timers ?v)"
    then consider "t = ?tn" | "t \<in> set (timers ?w1)" by (auto simp: tv)
    then show "0 < tid t \<and> tid t < nextTimer ?v
          \<and> (\<exists>i. map_of (roots ?v) (owner t) = Some i \<and> timerRef i = tid t
                \<and> due t \<le> now ?v + delayOf (getField (props i) ''duration''))"
    proof cases
      case 1
      with tmInv_D(3)[OF inv] show ?thesis
        by (simp add: nv rv update_conv')
    next
      case 2
      from tmInv_timer_owner[OF inv1 2] obtain i where
        i: "map_of (roots w) (owner t) = Some i" "timerRef i = tid t"
           "due t \<le> now w + delayOf (getField (props i) ''duration'')"
           "0 < tid t" "tid t < ?nt"
        by auto
      from 2 have ne: "tid t \<noteq> timerRef inst" by simp
      have "owner t \<noteq> d"
      proof
        assume "owner t = d"
        with i(1) Some have "i = inst" by simp
        with i(2) ne show False by simp
      qed
      with i show ?thesis by (simp add: nv rv update_conv')
    qed
  next
    fix d' i assume "(d', i) \<in> set (roots ?v)"
    with set_update_subset[of d ?inst' "roots w"]
    have "(d', i) = (d, ?inst') \<or> (d', i) \<in> set (roots w)" by (auto simp: rv)
    then show "timerRef i < nextTimer ?v \<and> d' < nextId ?v"
      using tmInv_root[OF inv Some] tmInv_D(4)[OF inv, of d' i] by (auto simp: nv)
  qed
qed

lemma tmInv_unmount:
  assumes inv: "tmInv w"
  shows "tmInv (unmountComponentAtNode d w)"
proof (cases "map_of (roots w) d")
  case None
  with inv show ?thesis by (simp add: unmount_unmounted)
next
  case (Some inst)
  let ?v = "unmountComponentAtNode d w"
  have tv: "timers ?v = filter (\<lambda>t. tid t \<noteq> timerRef inst) (timers w)"
    using Some by (simp add: unmount_timers)
  have rv: "roots ?v = AList.delete d (roots w)" by (rule unmount_roots)
  show ?thesis
  proof (rule tmInv_I)
    show "distinct (map tid (timers ?v))"
      using tmInv_D(1)[OF inv] by (simp add: tv distinct_map_filter)
  next
    show "distinct (map fst (roots ?v))"
      using tmInv_D(2)[OF inv] by (simp add: rv distinct_delete)
  next
    show "0 < nextTimer ?v" using tmInv_D(3)[OF inv] by simp
  next
    fix t assume t: "t \<in> set (timers ?v)"
    then have tw: "t \<in> set (timers w)" and ne: "tid t \<noteq> timerRef inst" by (simp_all add: tv)
    from tmInv_timer_owner[OF inv tw] obtain i where
      i: "map_of (roots w) (owner t) = Some i" "timerRef i = tid t"
         "due t \<le> now w + delayOf (getField (props i) ''duration'')"
         "0 < tid t" "tid t < nextTimer w"
      by auto
    have "owner t \<noteq> d"
    proof
      assume "owner t = d"
      with i(1) Some have "i = inst" by simp
      with i(2) ne show False by simp
    qed
    with i show "0 < tid t \<and> tid t < nextTimer ?v
          \<and> (\<exists>i. map_of (roots ?v) (owner t) = Some i \<and> timerRef i = tid t
                \<and> due t \<le> now ?v + delayOf (getField (props i) ''duration''))"
      by (simp add: rv delete_conv')
  next
    fix d' i assume "(d', i) \<in> set (roots ?v)"
    then have "(d', i) \<in> set (roots w)" by (auto simp: rv AList.delete_eq)
    from tmInv_D(4)[OF inv this] show "timerRef i < nextTimer ?v \<and> d' < nextId ?v" by simp
  qed
qed

lemma tmInv_body: "tmInv (w\<lparr> body := b \<rparr>) = tmInv w"
  by (simp add: tmInv_def cong: option.case_cong)

lemma tmInv_msgClose: "tmInv w \<Longrightarrow> tmInv (msgClose d w)"
  by (simp add: msgClose_def Let_def tmInv_body tmInv_unmount)

lemma tmInv_trace: "tmInv (w\<lparr> trace := tr \<rparr>) = tmInv w"
  by (simp add: tmInv_def cong: option.case_cong)

lemma tmInv_MessageList: "tmInv (w\<lparr> MessageList := ml \<rparr>) = tmInv w"
  by (simp add: tmInv_def cong: option.case_cong)

lemma tmInv_fire: "tmInv w \<Longrightarrow> tmInv (fire t w)"
  using fire_cases[of t w] by (auto simp: tmInv_msgClose tmInv_trace)

lemma nextDue_Some: "nextDue T ts = Some t \<Longrightarrow> t \<in> set ts \<and> due t \<le> T"
  by (induction ts arbitrary: t) (auto split: if_splits option.splits)

lemma tmInv_runTimers: "tmInv w \<Longrightarrow> now w \<le> T \<Longrightarrow> tmInv (runTimers T w) \<and> now (runTimers T w) = T"
proof (induction T w rule: runTimers.induct)
  case (1 T w)
  show ?case
  proof (cases "nextDue T (timers w)")
    case None
    have "tmInv (w\<lparr> now := max (now w) T \<rparr>)"
      using "1.prems"(1) by (rule tmInv_weaken[where P = "\<lambda>t. True"]) simp_all
    with None "1.prems"(2) show ?thesis
      by (subst (1 2) runTimers.simps) (simp add: max_def)
  next
    case (Some t)
    let ?v = "w\<lparr> timers := filter (\<lambda>u. tid u \<noteq> tid t) (timers w), now := max (now w) (due t) \<rparr>"
    from nextDue_Some[OF Some] have due: "due t \<le> T" by simp
    have "tmInv ?v"
      using "1.prems"(1) by (rule tmInv_weaken[where P = "\<lambda>u. tid u \<noteq> tid t"]) simp_all
    then have a: "tmInv (fire t ?v)" by (rule tmInv_fire)
    have b: "now (fire t ?v) \<le> T" using due "1.prems"(2) by simp
    from "1.IH"[OF Some a b] Some show ?thesis
      by (subst (1 2) runTimers.simps) simp
  qed
qed

lemma tmInv_elapse: "tmInv w \<Longrightarrow> tmInv (elapse n w)"
  using tmInv_runTimers[of w "now w + n"] by (simp add: elapse_def)

lemma now_elapse: "tmInv w \<Longrightarrow> now (elapse n w) = now w + n"
  using tmInv_runTimers[of w "now w + n"] by (simp add: elapse_def)

lemma tmInv_foldl_close:
  "tmInv w \<Longrightarrow> tmInv (foldl (\<lambda>v h. callClose (close h) v) w hs)"
proof (induction hs arbitrary: w)
  case Nil
  then show ?case by simp
next
  case (Cons h hs)
  obtain d where d: "close h = CloseOp d" by (cases "close h")
  from Cons.prems have "tmInv (msgClose d w)" by (rule tmInv_msgClose)
  from Cons.IH[OF this] d show ?case by simp
qed

lemma tmInv_closeAll: "tmInv w \<Longrightarrow> tmInv (closeAll w)"
  by (simp add: closeAll_def tmInv_MessageList tmInv_foldl_close)

lemma tmInv_mount:
  assumes inv: "tmInv w" and fresh: "nextId w \<le> d"
  shows "tmInv (w\<lparr> nextId := d + 1, keyIndex := k,
                   roots := AList.update d \<lparr> props = ps, timerRef = 0 \<rparr> (roots w) \<rparr>)"
    (is "tmInv ?v")
proof (rule tmInv_I)
  show "distinct (map tid (timers ?v))" using tmInv_D(1)[OF inv] by simp
  show "distinct (map fst (roots ?v))" using tmInv_D(2)[OF inv] by (simp add: distinct_update)
  show "0 < nextTimer ?v" using tmInv_D(3)[OF inv] by simp
next
  fix t assume "t \<in> set (timers ?v)"
  then have tw: "t \<in> set (timers w)" by simp
  from tmInv_timer_owner[OF inv tw] obtain i where
    i: "map_of (roots w) (owner t) = Some i" "timerRef i = tid t"
       "due t \<le> now w + delayOf (getField (props i) ''duration'')"
       "0 < tid t" "tid t < nextTimer w"
    by auto
  from tmInv_root[OF inv i(1)] fresh have "owner t \<noteq> d" by simp
  with i show "0 < tid t \<and> tid t < nextTimer ?v
          \<and> (\<exists>i. map_of (roots ?v) (owner t) = Some i \<and> timerRef i = tid t
                \<and> due t \<le> now ?v + delayOf (getField (props i) ''duration''))"
    by (simp add: update_conv')
next
  fix d' i assume "(d', i) \<in> set (roots ?v)"
  with set_update_subset[of d "\<lparr> props = ps, timerRef = 0 \<rparr>" "roots w"]
  have "(d', i) = (d, \<lparr> props = ps, timerRef = 0 \<rparr>) \<or> (d', i) \<in> set (roots w)" by auto
  then show "timerRef i < nextTimer ?v \<and> d' < nextId ?v"
    using tmInv_D(3)[OF inv] tmInv_D(4)[OF inv, of d' i] fresh by auto
qed

lemma tmInv_createContainer:
  assumes "tmInv w" and "createContainer K config w = Inr (c, w1)"
  shows "tmInv w1"
  using assms(1)
  by (rule tmInv_weaken[where P = "\<lambda>t. True"]) (simp_all add: createContainer_fields[OF assms(2)])

lemma tmInv_renderElement:
  assumes inv: "tmInv w" and r: "renderElement K th config w = Inr (p, w')"
  shows "tmInv w'"
proof -
  from renderElement_Inr[OF r] obtain c w1 ps where
    cc: "createContainer K config w = Inr (c, w1)" and
    w': "w' = (mountMessage ps (nextId w1)
                    (w1\<lparr> nextId := nextId w1 + 1, keyIndex := keyIndex w1 + 1 \<rparr>))
                  \<lparr> body := appendChild c (Elem (nextId w1) [] [] []) (body w1),
                    MessageList := MessageList w1 @ [\<lparr> close = CloseOp (nextId w1), key = keyIndex w1 + 1 \<rparr>] \<rparr>"
    by blast
  have inv1: "tmInv w1" using inv cc by (rule tmInv_createContainer)
  let ?m = "w1\<lparr> nextId := nextId w1 + 1, keyIndex := keyIndex w1 + 1,
                roots := AList.update (nextId w1) \<lparr> props = ps, timerRef = 0 \<rparr> (roots w1) \<rparr>"
  have m: "tmInv ?m" using tmInv_mount[OF inv1, of "nextId w1"] by simp
  have "tmInv (mountMessage ps (nextId w1) (w1\<lparr> nextId := nextId w1 + 1, keyIndex := keyIndex w1 + 1 \<rparr>))"
    using m tmInv_startDuration[OF m, of "nextId w1"]
    by (simp add: mountMessage_def Let_def)
  then show ?thesis
    by (simp add: w' tmInv_body tmInv_MessageList)
qed

lemma tmInv_step:
  assumes "tmInv w"
  shows "tmInv (step K e w)"
proof (cases e)
  case (Create th content durationArg)
  show ?thesis
  proof (cases "factory K th content durationArg w")
    case (Inl a)
    note f = step_failed_fields[OF Inl]
    have "tmInv (step K (Create th content durationArg) w)"
      using assms
      by (rule tmInv_weaken[where P = "\<lambda>t. True"]) (simp_all add: f del: step.simps)
    with Create show ?thesis by simp
  next
    case (Inr pw)
    obtain p w' where pw: "pw = (p, w')" by (cases pw)
    from Inr pw have "renderElement K th (factoryConfig content durationArg) w = Inr (p, w')"
      by (simp add: factory_def)
    from tmInv_renderElement[OF assms this] Create Inr pw show ?thesis by simp
  qed
next
  case (Close c)
  obtain d where "c = CloseOp d" by (cases c)
  with Close assms show ?thesis by (simp add: tmInv_msgClose)
next
  case CloseAll
  with assms show ?thesis by (simp add: tmInv_closeAll)
next
  case (MouseEnter d)
  with assms show ?thesis by (simp add: tmInv_mouseEnter)
next
  case (MouseLeave d)
  with assms show ?thesis by (simp add: mouseLeave_def tmInv_startDuration)
next
  case (Elapse n)
  with assms show ?thesis by (simp add: tmInv_elapse)
qed

lemma tmInv_run: "tmInv w \<Longrightarrow> tmInv (run K evs w)"
  by (induction evs arbitrary: w) (simp_all add: tmInv_step)

lemma tmInv_init: "tmInv init"
  by (simp add: tmInv_def init_def)

subsection \<open>A message that no timer is after\<close>

lemma unmount_roots_other:
  "d \<noteq> d' \<Longrightarrow> map_of (roots (unmountComponentAtNode d' w)) d = map_of (roots w) d"
  by (simp add: unmount_roots)

lemma unmount_timers_subset: "set (timers (unmountComponentAtNode d w)) \<subseteq> set (timers w)"
  by (auto simp: unmount_timers split: option.splits)

lemma fire_roots_other:
  "d \<noteq> owner t \<Longrightarrow> map_of (roots (fire t w)) d = map_of (roots w) d"
  using fire_cases[of t w] by (auto simp: unmount_roots_other)

lemma fire_timers_subset: "set (timers (fire t w)) \<subseteq> set (timers w)"
proof -
  let ?c = "w\<lparr> trace := trace w @ [CbDurationEnd (owner t) (Obj [(''close'', CloseOp (owner t))])] \<rparr>"
  have a: "set (timers (unmountComponentAtNode (owner t) ?c)) \<subseteq> set (timers w)"
    using unmount_timers_subset[of "owner t" ?c] by simp
  have b: "set (timers (unmountComponentAtNode (owner t) (msgClose (owner t) ?c))) \<subseteq> set (timers w)"
    using unmount_timers_subset[of "owner t" "msgClose (owner t) ?c"] a by auto
  show ?thesis
    using a b fire_cases[of t w] by auto
qed

lemma runTimers_stays:
  assumes "\<forall>t \<in> set (timers w). owner t = d \<longrightarrow> T < due t"
  shows "map_of (roots (runTimers T w)) d = map_of (roots w) d
       \<and> set (timers (runTimers T w)) \<subseteq> set (timers w)"
  using assms
proof (induction T w rule: runTimers.induct)
  case (1 T w)
  show ?case
  proof (cases "nextDue T (timers w)")
    case None
    then show ?thesis by (subst (1 2) runTimers.simps) simp
  next
    case (Some t)
    let ?v = "w\<lparr> timers := filter (\<lambda>u. tid u \<noteq> tid t) (timers w), now := max (now w) (due t) \<rparr>"
    from nextDue_Some[OF Some] have t: "t \<in> set (timers w)" "due t \<le> T" by simp_all
    with "1.prems" have ne: "d \<noteq> owner t" by auto
    have sub: "set (timers (fire t ?v)) \<subseteq> set (timers w)"
      using fire_timers_subset[of t ?v] by auto
    with "1.prems" have "\<forall>u \<in> set (timers (fire t ?v)). owner u = d \<longrightarrow> T < due u" by auto
    from "1.IH"[OF Some this] fire_roots_other[OF ne, of ?v] sub Some show ?thesis
      by (subst (1 2) runTimers.simps) auto
  qed
qed

lemma startDuration_roots_other:
  "d \<noteq> d' \<Longrightarrow> map_of (roots (startDuration d' w)) d = map_of (roots w) d"
  by (simp add: startDuration_def Let_def update_conv' split: option.splits)

lemma startDuration_timers:
  "set (timers (startDuration d w)) \<subseteq> set (timers w) \<union> {t. owner t = d}"
  by (auto simp: startDuration_def Let_def split: option.splits)

lemma render_roots_other:
  "d \<noteq> d' \<Longrightarrow> map_of (roots (mountMessage ps d' w)) d = map_of (roots w) d"
  by (simp add: mountMessage_def Let_def startDuration_roots_other update_conv')

lemma render_timers:
  "set (timers (mountMessage ps d w)) \<subseteq> set (timers w) \<union> {t. owner t = d}"
  using startDuration_timers[of d "w\<lparr> roots := AList.update d \<lparr> props = ps, timerRef = 0 \<rparr> (roots w) \<rparr>"]
  by (auto simp: mountMessage_def Let_def)

lemma renderElement_others:
  assumes inv: "tmInv w" and r: "renderElement K th config w = Inr (p, w')"
    and m: "map_of (roots w) d = Some inst"
  shows "map_of (roots w') d = Some inst"
    and "\<forall>t \<in> set (timers w'). owner t = d \<longrightarrow> t \<in> set (timers w)"
proof -
  from renderElement_Inr[OF r] obtain c w1 ps where
    cc: "createContainer K config w = Inr (c, w1)" and
    w': "w' = (mountMessage ps (nextId w1)
                    (w1\<lparr> nextId := nextId w1 + 1, keyIndex := keyIndex w1 + 1 \<rparr>))
                  \<lparr> body := appendChild c (Elem (nextId w1) [] [] []) (body w1),
                    MessageList := MessageList w1 @ [\<lparr> close = CloseOp (nextId w1), key = keyIndex w1 + 1 \<rparr>] \<rparr>"
    by blast
  note f = createContainer_fields[OF cc]
  from tmInv_root[OF inv m] f have ne: "d \<noteq> nextId w1" by simp
  let ?w2 = "w1\<lparr> nextId := nextId w1 + 1, keyIndex := keyIndex w1 + 1 \<rparr>"
  show "map_of (roots w') d = Some inst"
    using render_roots_other[OF ne, of ps ?w2] m f by (simp add: w')
  show "\<forall>t \<in> set (timers w'). owner t = d \<longrightarrow> t \<in> set (timers w)"
    using render_timers[of ps "nextId w1" ?w2] ne f by (auto simp: w')
qed

lemma quiet_step:
  assumes inv: "tmInv w" and m: "map_of (roots w) d = Some inst"
    and q: "\<forall>t \<in> set (timers w). owner t \<noteq> d" and e: "leavesAlone d e"
  shows "map_of (roots (step K e w)) d = Some inst
       \<and> (\<forall>t \<in> set (timers (step K e w)). owner t \<noteq> d)"
proof (cases e)
  case (Create th content durationArg)
  show ?thesis
  proof (cases "factory K th content durationArg w")
    case (Inl a)
    from step_failed_fields(2,3)[OF Inl] Create m q show ?thesis by simp
  next
    case (Inr pw)
    obtain p w' where pw: "pw = (p, w')" by (cases pw)
    from Inr pw have r: "renderElement K th (factoryConfig content durationArg) w = Inr (p, w')"
      by (simp add: factory_def)
    from renderElement_others[OF inv r m] q Create Inr pw show ?thesis by auto
  qed
next
  case (Close c)
  obtain d' where c: "c = CloseOp d'" by (cases c)
  with e Close have "d \<noteq> d'" by simp
  with Close c m q unmount_timers_subset[of d' w] show ?thesis
    by (auto simp: unmount_roots_other)
next
  case CloseAll
  with e show ?thesis by simp
next
  case (MouseEnter d')
  with m q show ?thesis by (auto simp: mouseEnter_def split: option.splits)
next
  case (MouseLeave d')
  with e have "d \<noteq> d'" by simp
  with MouseLeave m q startDuration_timers[of d' w] show ?thesis
    by (auto simp: mouseLeave_def startDuration_roots_other)
next
  case (Elapse n)
  from q have "\<forall>t \<in> set (timers w). owner t = d \<longrightarrow> now w + n < due t" by simp
  from runTimers_stays[OF this] Elapse m q show ?thesis
    by (auto simp: elapse_def)
qed

lemma quiet_run:
  assumes "tmInv w" and "map_of (roots w) d = Some inst"
    and "\<forall>t \<in> set (timers w). owner t \<noteq> d" and "list_all (leavesAlone d) evs"
  shows "map_of (roots (run K evs w)) d = Some inst"
  using assms
proof (induction evs arbitrary: w)
  case Nil
  then show ?case by simp
next
  case (Cons e es)
  from Cons.prems(4) have e: "leavesAlone d e" and es: "list_all (leavesAlone d) es" by simp_all
  from quiet_step[OF Cons.prems(1-3) e, of K]
  have a: "map_of (roots (step K e w)) d = Some inst"
    and b: "\<forall>t \<in> set (timers (step K e w)). owner t \<noteq> d" by simp_all
  from Cons.IH[OF tmInv_step[OF Cons.prems(1)] a b es] show ?case by simp
qed

text \<open>
  C1, as claimed: a message created with duration 0, or with the duration omitted,
  never has a timer armed and never closes by itself. On a fresh page the call
  \<open>Message.error({content: 'Save failed', duration: 0})\<close> arms a timer that is due at
  once, and the message is gone as soon as the event loop runs; \<open>Message.info('saved')\<close>
  gets the default duration of 3000 ms, a timer due at 3000, and is gone by then.
\<close>

theorem zero_or_omitted_duration_arms_timer_counterexample:
  "timers (step exampleEnv
      (Create Error (VObject [(''content'', VStr ''Save failed''), (''duration'', VNum 0)]) VUndefined)
      init)
     = [\<lparr>tid = 1, due = 0, owner = 2, cbDurationEnd = VUndefined\<rparr>]
   \<and> roots (run exampleEnv
      [Create Error (VObject [(''content'', VStr ''Save failed''), (''duration'', VNum 0)]) VUndefined,
       Elapse 0] init) = []
   \<and> timers (step exampleEnv (Create Info (VStr ''saved'') VUndefined) init)
     = [\<lparr>tid = 1, due = 3000, owner = 2, cbDurationEnd = VUndefined\<rparr>]
   \<and> roots (run exampleEnv [Create Info (VStr ''saved'') VUndefined, Elapse 3000] init) = []"
  by code_simp

text \<open>
  C1, amended. When the duration that reaches the component is not a number (the
  configuration says \<open>duration: undefined\<close>, or the second argument is \<open>null\<close>), a
  factory call arms no timer: the pending timers are those from before, none of them
  belongs to the new message, and the message stays mounted through every run of
  events in which it is not closed by its handle or by \<open>closeAll\<close> and the pointer
  does not leave it.
\<close>

theorem no_timer_without_numeric_duration:
  assumes inv: "tmInv w"
    and f: "factory K th content durationArg w = Inr (p, w')"
    and nn: "\<not> isNumber (getField (factoryConfig content durationArg) ''duration'')"
  shows "timers w' = timers w
       \<and> (\<exists>d. MessageList w' = MessageList w @ [\<lparr> close = CloseOp d, key = keyIndex w + 1 \<rparr>]
              \<and> d \<in> set (map fst (roots w'))
              \<and> (\<forall>t \<in> set (timers w'). owner t \<noteq> d)
              \<and> (\<forall>evs. list_all (leavesAlone d) evs \<longrightarrow>
                     d \<in> set (map fst (roots (run K evs w')))))"
proof -
  let ?cfg = "factoryConfig content durationArg"
  from f have r: "renderElement K th ?cfg w = Inr (p, w')" by (simp add: factory_def)
  from renderElement_Inr[OF r] obtain c w1 ps where
    cc: "createContainer K ?cfg w = Inr (c, w1)" and
    w': "w' = (mountMessage ps (nextId w1)
                    (w1\<lparr> nextId := nextId w1 + 1, keyIndex := keyIndex w1 + 1 \<rparr>))
                  \<lparr> body := appendChild c (Elem (nextId w1) [] [] []) (body w1),
                    MessageList := MessageList w1 @ [\<lparr> close = CloseOp (nextId w1), key = keyIndex w1 + 1 \<rparr>] \<rparr>" and
    ps: "ps = messageProps th (offsetStyle (getField ?cfg ''offset'')) ?cfg"
    by blast
  note fl = createContainer_fields[OF cc]
  let ?d = "nextId w1"
  let ?w2 = "w1\<lparr> nextId := nextId w1 + 1, keyIndex := keyIndex w1 + 1 \<rparr>"
  let ?inst = "\<lparr> props = ps, timerRef = 0 \<rparr>"
  have "\<not> isNumber (getField ps ''duration'')"
    using nn by (simp add: ps getField_messageProps)
  then have render: "\<And>v. mountMessage ps ?d v = v\<lparr> roots := AList.update ?d ?inst (roots v) \<rparr>"
    by (simp add: mountMessage_def Let_def)
  have "timers w' = timers w1" by (simp add: w' render)
  with fl have tm: "timers w' = timers w" by simp
  have "MessageList w' = MessageList w1 @ [\<lparr> close = CloseOp ?d, key = keyIndex w1 + 1 \<rparr>]"
    by (simp add: w')
  with fl have ml: "MessageList w' = MessageList w @ [\<lparr> close = CloseOp ?d, key = keyIndex w + 1 \<rparr>]"
    by simp
  have mo: "map_of (roots w') ?d = Some ?inst"
    by (simp add: w' render update_conv')
  then have mounted: "?d \<in> set (map fst (roots w'))"
    using mounted_iff[of ?d w'] by simp
  have noT: "\<forall>t \<in> set (timers w'). owner t \<noteq> ?d"
  proof
    fix t assume "t \<in> set (timers w')"
    then have "t \<in> set (timers w)" by (simp add: tm)
    from tmInv_timer_owner[OF inv this] obtain i where "map_of (roots w) (owner t) = Some i"
      by auto
    from tmInv_root[OF inv this] fl show "owner t \<noteq> ?d" by simp
  qed
  have inv': "tmInv w'" using inv r by (rule tmInv_renderElement)
  have later: "\<forall>evs. list_all (leavesAlone ?d) evs \<longrightarrow> ?d \<in> set (map fst (roots (run K evs w')))"
  proof (intro allI impI)
    fix evs assume "list_all (leavesAlone ?d) evs"
    from quiet_run[OF inv' mo noT this, of K] show "?d \<in> set (map fst (roots (run K evs w')))"
      using mounted_iff[of ?d "run K evs w'"] by simp
  qed
  from tm ml mounted noT later show ?thesis by blast
qed

subsection \<open>Hovering\<close>

lemma owned_timer_is_current:
  assumes "tmInv w" and "map_of (roots w) d = Some inst" and "t \<in> set (timers w)" and "owner t = d"
  shows "tid t = timerRef inst \<and> due t \<le> now w + delayOf (getField (props inst) ''duration'')"
  using tmInv_timer_owner[OF assms(1,3)] assms(2,4) by auto

lemma mouseEnter_cancels:
  assumes "tmInv w" and "map_of (roots w) d = Some inst"
  shows "\<forall>t \<in> set (timers (mouseEnter d w)). owner t \<noteq> d"
proof
  fix t assume "t \<in> set (timers (mouseEnter d w))"
  with assms(2) have t: "t \<in> set (timers w)" and ne: "tid t \<noteq> timerRef inst"
    by (simp_all add: mouseEnter_def)
  show "owner t \<noteq> d"
  proof
    assume "owner t = d"
    from owned_timer_is_current[OF assms t this] ne show False by simp
  qed
qed

lemma mouseLeave_arms:
  assumes "tmInv w" and "map_of (roots w) d = Some inst"
  shows "filter (\<lambda>t. owner t = d) (timers (mouseLeave d w)) =
           [\<lparr> tid = nextTimer w, due = now w + delayOf (getField (props inst) ''duration''),
              owner = d, cbDurationEnd = getField (props inst) ''onDurationEnd'' \<rparr>]
       \<and> map_of (roots (mouseLeave d w)) d = Some (inst\<lparr> timerRef := nextTimer w \<rparr>)"
proof -
  have "filter (\<lambda>t. owner t = d) (filter (\<lambda>t. tid t \<noteq> timerRef inst) (timers w)) = []"
  proof (rule filter_False, rule ballI)
    fix t assume "t \<in> set (filter (\<lambda>t. tid t \<noteq> timerRef inst) (timers w))"
    then have t: "t \<in> set (timers w)" and ne: "tid t \<noteq> timerRef inst" by simp_all
    show "\<not> owner t = d"
    proof
      assume "owner t = d"
      from owned_timer_is_current[OF assms t this] ne show False by simp
    qed
  qed
  with assms(2) show ?thesis
    by (simp add: mouseLeave_def startDuration_def Let_def update_conv')
qed

text \<open>
  A duration below \<open>2^31\<close> ms is the delay of the timer. At \<open>2^31\<close> ms the host's
  conversion to 32 bits makes the delay 0, so that a timer armed then is due at once.
\<close>

lemma delayOf_small: "0 \<le> n \<Longrightarrow> n < 2 ^ 31 \<Longrightarrow> delayOf (VNum n) = nat n"
  by (simp add: toInt32_def)

lemma delayOf_wraps: "delayOf (VNum (2 ^ 31)) = 0"
  by (simp add: toInt32_def)

text \<open>
  C7. A mounted message has the duration \<open>D > 0\<close>, a number of milliseconds that the
  host's timer can hold (\<open>D < 2^31\<close>), and the pointer enters it after \<open>a\<close> ms, before
  its timer is due. Then no timer of the message is pending any more. When the pointer
  leaves \<open>b\<close> ms later, the message has exactly one pending timer, a new one, due \<open>D\<close>
  ms after the leave. Until those \<open>D\<close> ms are over the message stays mounted; in
  particular, if any time has passed (\<open>a + b > 0\<close>) it is still mounted at the moment
  its original timer was due.
\<close>

theorem hover_restarts_full_duration:
  assumes inv: "tmInv w"
    and m: "map_of (roots w) d = Some inst"
    and dur: "getField (props inst) ''duration'' = VNum D" and pos: "0 < D"
    and small: "D < 2 ^ 31"
    and before: "\<forall>t \<in> set (timers w). owner t = d \<longrightarrow> now w + a < due t"
  shows "(\<forall>t \<in> set (timers (run K [Elapse a, MouseEnter d] w)). owner t \<noteq> d)
       \<and> now (run K [Elapse a, MouseEnter d, Elapse b, MouseLeave d] w) = now w + a + b
       \<and> filter (\<lambda>t. owner t = d) (timers (run K [Elapse a, MouseEnter d, Elapse b, MouseLeave d] w)) =
           [\<lparr> tid = nextTimer w, due = now w + a + b + nat D, owner = d,
              cbDurationEnd = getField (props inst) ''onDurationEnd'' \<rparr>]
       \<and> (\<forall>c. c < nat D \<longrightarrow>
             d \<in> set (map fst (roots (run K [Elapse a, MouseEnter d, Elapse b, MouseLeave d, Elapse c] w))))
       \<and> (\<forall>t \<in> set (timers w). owner t = d \<and> 0 < a + b \<and> now w + a + b \<le> due t \<longrightarrow>
             d \<in> set (map fst (roots
               (run K [Elapse a, MouseEnter d, Elapse b, MouseLeave d, Elapse (due t - (now w + a + b))] w))))"
proof -
  let ?w1 = "elapse a w"
  let ?w2 = "mouseEnter d ?w1"
  let ?w3 = "elapse b ?w2"
  let ?v = "mouseLeave d ?w3"
  have inv1: "tmInv ?w1" using inv by (rule tmInv_elapse)
  have now1: "now ?w1 = now w + a" using inv by (rule now_elapse)
  from runTimers_stays[OF before] m have m1: "map_of (roots ?w1) d = Some inst"
    by (simp add: elapse_def)
  have inv2: "tmInv ?w2" using inv1 by (rule tmInv_mouseEnter)
  have m2: "map_of (roots ?w2) d = Some inst" using m1 by simp
  have q2: "\<forall>t \<in> set (timers ?w2). owner t \<noteq> d"
    using inv1 m1 by (rule mouseEnter_cancels)
  have inv3: "tmInv ?w3" using inv2 by (rule tmInv_elapse)
  have now3: "now ?w3 = now w + a + b" using now_elapse[OF inv2, of b] now1 by simp
  from q2 have "\<forall>t \<in> set (timers ?w2). owner t = d \<longrightarrow> now ?w2 + b < due t" by simp
  from runTimers_stays[OF this] m2 q2
  have m3: "map_of (roots ?w3) d = Some inst" by (simp add: elapse_def)
  have nt3: "nextTimer ?w3 = nextTimer w" by simp
  have del: "delayOf (VNum D) = nat D"
    by (rule delayOf_small) (use pos small in simp_all)
  from mouseLeave_arms[OF inv3 m3] dur del
  have tv: "filter (\<lambda>t. owner t = d) (timers ?v) =
           [\<lparr> tid = nextTimer w, due = now w + a + b + nat D, owner = d,
              cbDurationEnd = getField (props inst) ''onDurationEnd'' \<rparr>]"
    and mv: "map_of (roots ?v) d = Some (inst\<lparr> timerRef := nextTimer w \<rparr>)"
    by (simp_all add: now3)
  have nowv: "now ?v = now w + a + b" using now3 by simp
  have invv: "tmInv ?v" using inv3 by (simp add: mouseLeave_def tmInv_startDuration)
  have all_due: "\<forall>t \<in> set (timers ?v). owner t = d \<longrightarrow> due t = now w + a + b + nat D"
  proof (intro ballI impI)
    fix t assume "t \<in> set (timers ?v)" "owner t = d"
    then have "t \<in> set (filter (\<lambda>t. owner t = d) (timers ?v))" by simp
    then show "due t = now w + a + b + nat D" unfolding tv by simp
  qed
  have stays: "\<forall>c. c < nat D \<longrightarrow> d \<in> set (map fst (roots (elapse c ?v)))"
  proof (intro allI impI)
    fix c assume c: "c < nat D"
    from all_due c have "\<forall>t \<in> set (timers ?v). owner t = d \<longrightarrow> now ?v + c < due t"
      by (simp add: now3)
    from runTimers_stays[OF this] mv have "map_of (roots (elapse c ?v)) d \<noteq> None"
      by (simp add: elapse_def)
    then show "d \<in> set (map fst (roots (elapse c ?v)))"
      using mounted_iff[of d "elapse c ?v"] by simp
  qed
  have mark: "\<forall>t \<in> set (timers w). owner t = d \<and> 0 < a + b \<and> now w + a + b \<le> due t \<longrightarrow>
             d \<in> set (map fst (roots (elapse (due t - (now w + a + b)) ?v)))"
  proof (intro ballI impI)
    fix t assume t: "t \<in> set (timers w)"
      and h: "owner t = d \<and> 0 < a + b \<and> now w + a + b \<le> due t"
    from owned_timer_is_current[OF inv m t] h dur del have "due t \<le> now w + nat D" by simp
    with h have "due t - (now w + a + b) < nat D" by linarith
    with stays show "d \<in> set (map fst (roots (elapse (due t - (now w + a + b)) ?v)))"
      by blast
  qed
  from q2 nowv tv stays mark show ?thesis by simp
qed

lemma persistentMessage_factory:
  "factory exampleEnv Error
     (VObject [(''content'', VStr ''Save failed''), (''duration'', VUndefined)]) (VNum 5) init
   = Inr (Resolved \<lparr>close = CloseOp 2, key = 2\<rparr>, persistentMessage)"
  by code_simp

theorem no_timer_without_numeric_duration_witness:
  "tmInv init
   \<and> factory exampleEnv Error
        (VObject [(''content'', VStr ''Save failed''), (''duration'', VUndefined)]) (VNum 5) init
      = Inr (Resolved \<lparr>close = CloseOp 2, key = 2\<rparr>, persistentMessage)
   \<and> \<not> isNumber (getField (factoryConfig
        (VObject [(''content'', VStr ''Save failed''), (''duration'', VUndefined)]) (VNum 5)) ''duration'')
   \<and> timers persistentMessage = []
   \<and> 2 \<in> set (map fst (roots (run exampleEnv
        [Elapse 100000, MouseEnter 2, Create Info (VStr ''saved'') VUndefined, Elapse 5000]
        persistentMessage)))"
proof -
  let ?c = "VObject [(''content'', VStr ''Save failed''), (''duration'', VUndefined)]"
  have h1: "tmInv init" by (simp add: tmInv_def init_def)
  have h3: "\<not> isNumber (getField (factoryConfig ?c (VNum 5)) ''duration'')"
    by code_simp
  note th = no_timer_without_numeric_duration[OF h1 persistentMessage_factory h3]
  from th have tm: "timers persistentMessage = []" by (simp add: init_def)
  from th obtain d where
    ml: "MessageList persistentMessage = MessageList init @ [\<lparr> close = CloseOp d, key = keyIndex init + 1 \<rparr>]"
    and later: "\<forall>evs. list_all (leavesAlone d) evs \<longrightarrow>
                     d \<in> set (map fst (roots (run exampleEnv evs persistentMessage)))"
    by blast
  have "MessageList persistentMessage = [\<lparr>close = CloseOp 2, key = 2\<rparr>]"
    unfolding persistentMessage_def by code_simp
  with ml have d: "d = 2" by (simp add: init_def)
  have "list_all (leavesAlone 2)
      [Elapse 100000, MouseEnter 2, Create Info (VStr ''saved'') VUndefined, Elapse 5000]"
    by simp
  with later d have "2 \<in> set (map fst (roots (run exampleEnv
        [Elapse 100000, MouseEnter 2, Create Info (VStr ''saved'') VUndefined, Elapse 5000]
        persistentMessage)))"
    by blast
  with h1 persistentMessage_factory h3 tm show ?thesis by blast
qed

theorem hover_restarts_full_duration_witness:
  "tmInv timedMessage
   \<and> now (run exampleEnv [Elapse 30, MouseEnter 2, Elapse 50, MouseLeave 2] timedMessage) = 80
   \<and> filter (\<lambda>t. owner t = 2)
        (timers (run exampleEnv [Elapse 30, MouseEnter 2, Elapse 50, MouseLeave 2] timedMessage))
      = [\<lparr>tid = 2, due = 180, owner = 2, cbDurationEnd = VFun (CallsClose 1)\<rparr>]
   \<and> 2 \<in> set (map fst (roots
        (run exampleEnv [Elapse 30, MouseEnter 2, Elapse 50, MouseLeave 2, Elapse 20] timedMessage)))
   \<and> 2 \<in> set (map fst (roots
        (run exampleEnv [Elapse 30, MouseEnter 2, Elapse 50, MouseLeave 2, Elapse 99] timedMessage)))"
proof -
  let ?inst = "\<lparr>props =
                [(''theme'', VStr ''info''), (''style'', VObject []),
                 (''zIndex'', VNum 6000), (''content'', VStr ''saved''),
                 (''onDurationEnd'', VFun (CallsClose 1)),
                 (''duration'', VNum 100), (''children'', VStr ''saved'')],
                timerRef = 1\<rparr>"
  have h1: "tmInv timedMessage"
    by (simp add: timedMessage_eval tmInv_def getField_def toInt32_def)
  have h2: "map_of (roots timedMessage) 2 = Some ?inst"
    by (simp add: timedMessage_eval)
  have h3: "getField (props ?inst) ''duration'' = VNum 100"
    by (simp add: getField_def)
  have h4: "(0::int) < 100" by simp
  have h4': "(100::int) < 2 ^ 31" by simp
  have h5: "\<forall>t \<in> set (timers timedMessage). owner t = 2 \<longrightarrow> now timedMessage + 30 < due t"
    by (simp add: timedMessage_eval)
  note th = hover_restarts_full_duration[OF h1 h2 h3 h4 h4' h5, of exampleEnv 50]
  have n0: "now timedMessage = 0" and nt: "nextTimer timedMessage = 2"
    and t0: "\<lparr>tid = 1, due = 100, owner = 2, cbDurationEnd = VFun (CallsClose 1)\<rparr> \<in> set (timers timedMessage)"
    by (simp_all add: timedMessage_eval)
  from th have a: "now (run exampleEnv [Elapse 30, MouseEnter 2, Elapse 50, MouseLeave 2] timedMessage) = 80"
    by (simp add: n0)
  from th have b: "filter (\<lambda>t. owner t = 2)
        (timers (run exampleEnv [Elapse 30, MouseEnter 2, Elapse 50, MouseLeave 2] timedMessage))
      = [\<lparr>tid = 2, due = 180, owner = 2, cbDurationEnd = VFun (CallsClose 1)\<rparr>]"
    by (simp add: n0 nt getField_def)
  from th have c: "\<And>c. c < nat 100 \<Longrightarrow> 2 \<in> set (map fst (roots
        (run exampleEnv [Elapse 30, MouseEnter 2, Elapse 50, MouseLeave 2, Elapse c] timedMessage)))"
    by blast
  have c20: "(20::nat) < nat 100" and c99: "(99::nat) < nat 100" by simp_all
  from h1 a b c[OF c20] c[OF c99] show ?thesis by blast
qed

subsection \<open>The tree of the document\<close>

lemma eid_appendChild [simp]: "eid (appendChild p el e) = eid e"
  by (cases e) simp

lemma className_appendChild [simp]: "className (appendChild p el e) = className e"
  by (cases e) simp

lemma className_removeNode [simp]: "className (removeNode d e) = className e"
  by (cases e) simp

lemma ids_nodes: "ids e = map eid (nodes e)" "idsL ks = map eid (nodesL ks)"
  by (induction e and ks rule: nodes_nodesL.induct) simp_all

lemma matchesL_append [simp]: "matchesL cls (xs @ ys) = matchesL cls xs @ matchesL cls ys"
  by (induction xs) simp_all

lemma idsL_append [simp]: "idsL (xs @ ys) = idsL xs @ idsL ys"
  by (induction xs) simp_all

lemma nodesL_append [simp]: "nodesL (xs @ ys) = nodesL xs @ nodesL ys"
  by (induction xs) simp_all

lemma matches_appendChild:
  "matches cls el = [] \<Longrightarrow> map eid (matches cls (appendChild p el e)) = map eid (matches cls e)"
  "matches cls el = [] \<Longrightarrow> map eid (matchesL cls (appendChildL p el ks)) = map eid (matchesL cls ks)"
  by (induction p el e and p el ks rule: appendChild_appendChildL.induct) simp_all

lemma self_in_nodes: "e \<in> set (nodes e)"
  by (cases e) simp

lemma matches_removeNode:
  "\<forall>x \<in> set (nodes e). eid x = d \<longrightarrow> matches cls x = []
     \<Longrightarrow> map eid (matches cls (removeNode d e)) = map eid (matches cls e)"
  "\<forall>x \<in> set (nodesL ks). eid x = d \<longrightarrow> matches cls x = []
     \<Longrightarrow> map eid (matchesL cls (removeNodeL d ks)) = map eid (matchesL cls ks)"
proof (induction d e and d ks rule: removeNode_removeNodeL.induct)
  case (1 m i c s ks)
  then show ?case by simp
next
  case (2 m)
  show ?case by simp
next
  case (3 m k ks)
  show ?case
  proof (cases "eid k = m")
    case True
    with "3.prems" self_in_nodes[of k] have "matches cls k = []" by auto
    with True "3.IH"(1) "3.prems" show ?thesis by simp
  next
    case False
    with "3.IH"(2,3) "3.prems" show ?thesis by simp
  qed
qed

lemma matches_empty_removeNode:
  "matches cls e = [] \<Longrightarrow> matches cls (removeNode d e) = []"
  "matchesL cls ks = [] \<Longrightarrow> matchesL cls (removeNodeL d ks) = []"
  by (induction d e and d ks rule: removeNode_removeNodeL.induct) (auto split: if_splits)

lemma matches_empty_appendChild:
  "matches cls el = [] \<Longrightarrow> matches cls e = [] \<Longrightarrow> matches cls (appendChild p el e) = []"
  using matches_appendChild(1)[of cls el p e] by simp

lemma nodes_removeNode:
  "x' \<in> set (nodes (removeNode d e)) \<Longrightarrow> \<exists>x \<in> set (nodes e). x' = removeNode d x"
  "x' \<in> set (nodesL (removeNodeL d ks)) \<Longrightarrow> \<exists>x \<in> set (nodesL ks). x' = removeNode d x"
proof (induction d e and d ks rule: removeNode_removeNodeL.induct)
  case (1 m i c s ks)
  from "1.prems" consider "x' = removeNode m (Elem i c s ks)" | "x' \<in> set (nodesL (removeNodeL m ks))"
    by auto
  then show ?case
  proof cases
    case 1
    then show ?thesis by auto
  next
    case 2
    from "1.IH"[OF 2] show ?thesis by auto
  qed
next
  case (2 m)
  then show ?case by simp
next
  case (3 m k ks)
  show ?case
  proof (cases "eid k = m")
    case True
    with "3.prems" "3.IH"(1) show ?thesis by auto
  next
    case False
    with "3.prems" "3.IH"(2,3) show ?thesis by auto
  qed
qed

lemma nodes_appendChild:
  "x' \<in> set (nodes (appendChild p el e))
     \<Longrightarrow> x' \<in> set (nodes el) \<or> (\<exists>x \<in> set (nodes e). x' = x \<or> x' = appendChild p el x)"
  "x' \<in> set (nodesL (appendChildL p el ks))
     \<Longrightarrow> x' \<in> set (nodes el) \<or> (\<exists>x \<in> set (nodesL ks). x' = x \<or> x' = appendChild p el x)"
proof (induction p el e and p el ks rule: appendChild_appendChildL.induct)
  case (1 p d i c s ks)
  show ?case
  proof (cases "i = p")
    case True
    with "1.prems" show ?thesis by auto
  next
    case False
    with "1.prems" consider "x' = appendChild p d (Elem i c s ks)"
      | "x' \<in> set (nodesL (appendChildL p d ks))" by auto
    then show ?thesis
    proof cases
      case 1
      then show ?thesis by auto
    next
      case 2
      from "1.IH"[OF False 2] show ?thesis by auto
    qed
  qed
next
  case (2 p d)
  then show ?case by simp
next
  case (3 p d k ks)
  from "3.prems" consider "x' \<in> set (nodes (appendChild p d k))"
    | "x' \<in> set (nodesL (appendChildL p d ks))" by auto
  then show ?case
  proof cases
    case 1
    from "3.IH"(1)[OF 1] show ?thesis by auto
  next
    case 2
    from "3.IH"(2)[OF 2] show ?thesis by auto
  qed
qed

lemma clean_removeNode:
  assumes "clean cls d e"
  shows "clean cls d (removeNode d' e)"
  unfolding clean_def list_all_iff
proof (intro ballI impI)
  fix x' assume x': "x' \<in> set (nodes (removeNode d' e))" and id: "eid x' = d"
  from nodes_removeNode(1)[OF x'] obtain x where x: "x \<in> set (nodes e)" "x' = removeNode d' x"
    by blast
  with id have "eid x = d" by (simp add: eid_removeNode)
  with assms x(1) have "matches cls x = []" by (auto simp: clean_def list_all_iff)
  with x(2) show "matches cls x' = []" by (simp add: matches_empty_removeNode)
qed

lemma clean_appendChild:
  assumes "clean cls d e" and "matches cls el = []" and "clean cls d el"
  shows "clean cls d (appendChild p el e)"
  unfolding clean_def list_all_iff
proof (intro ballI impI)
  fix x' assume x': "x' \<in> set (nodes (appendChild p el e))" and id: "eid x' = d"
  from nodes_appendChild(1)[OF x']
  consider "x' \<in> set (nodes el)" | x where "x \<in> set (nodes e)" "x' = x"
    | x where "x \<in> set (nodes e)" "x' = appendChild p el x" by blast
  then show "matches cls x' = []"
  proof cases
    case 1
    with assms(3) id show ?thesis by (auto simp: clean_def list_all_iff)
  next
    case 2
    with assms(1) id show ?thesis by (auto simp: clean_def list_all_iff)
  next
    case 3
    with id have "eid x = d" by simp
    with assms(1) 3(1) have "matches cls x = []" by (auto simp: clean_def list_all_iff)
    with 3(2) assms(2) show ?thesis by (simp add: matches_empty_appendChild)
  qed
qed

lemma ids_removeNode_subset:
  "set (ids (removeNode d e)) \<subseteq> set (ids e)"
  "set (idsL (removeNodeL d ks)) \<subseteq> set (idsL ks)"
  by (induction d e and d ks rule: removeNode_removeNodeL.induct) auto

lemma distinct_removeNode:
  "distinct (ids e) \<Longrightarrow> distinct (ids (removeNode d e))"
  "distinct (idsL ks) \<Longrightarrow> distinct (idsL (removeNodeL d ks))"
proof (induction d e and d ks rule: removeNode_removeNodeL.induct)
  case (1 m i c s ks)
  with ids_removeNode_subset(2)[of m ks] show ?case by auto
next
  case (2 m)
  show ?case by simp
next
  case (3 m k ks)
  with ids_removeNode_subset(1)[of m k] ids_removeNode_subset(2)[of m ks] show ?case
    by (auto simp: disjoint_iff)
qed

lemma removed_not_in_ids:
  "d \<noteq> eid e \<Longrightarrow> d \<notin> set (ids (removeNode d e))"
  "d \<notin> set (idsL (removeNodeL d ks))"
  by (induction d e and d ks rule: removeNode_removeNodeL.induct) auto

lemma removeNode_absent:
  "d \<notin> set (ids e) \<Longrightarrow> removeNode d e = e"
  "d \<notin> set (idsL ks) \<Longrightarrow> removeNodeL d ks = ks"
proof (induction d e and d ks rule: removeNode_removeNodeL.induct)
  case (1 m i c s ks)
  then show ?case by simp
next
  case (2 m)
  show ?case by simp
next
  case (3 m k ks)
  from "3.prems" have "eid k \<noteq> m" by (cases k) auto
  with "3.prems" "3.IH" show ?case by simp
qed

lemma appendChild_absent:
  "p \<notin> set (ids e) \<Longrightarrow> appendChild p el e = e"
  "p \<notin> set (idsL ks) \<Longrightarrow> appendChildL p el ks = ks"
  by (induction p el e and p el ks rule: appendChild_appendChildL.induct) auto

lemma ids_appendChild_subset:
  "set (ids (appendChild p el e)) \<subseteq> set (ids e) \<union> set (ids el)"
  "set (idsL (appendChildL p el ks)) \<subseteq> set (idsL ks) \<union> set (ids el)"
  by (induction p el e and p el ks rule: appendChild_appendChildL.induct) auto

lemma ids_appendChild_superset:
  "set (ids e) \<subseteq> set (ids (appendChild p el e))"
  "set (idsL ks) \<subseteq> set (idsL (appendChildL p el ks))"
  by (induction p el e and p el ks rule: appendChild_appendChildL.induct) auto

lemma distinct_appendChild:
  "distinct (ids e) \<Longrightarrow> distinct (ids el) \<Longrightarrow> set (ids e) \<inter> set (ids el) = {}
     \<Longrightarrow> distinct (ids (appendChild p el e))"
  "distinct (idsL ks) \<Longrightarrow> distinct (ids el) \<Longrightarrow> set (idsL ks) \<inter> set (ids el) = {}
     \<Longrightarrow> distinct (idsL (appendChildL p el ks))"
proof (induction p el e and p el ks rule: appendChild_appendChildL.induct)
  case (1 p d i c s ks)
  show ?case
  proof (cases "i = p")
    case True
    with "1.prems" show ?thesis by auto
  next
    case False
    from "1.prems" have a: "distinct (idsL ks)" "set (idsL ks) \<inter> set (ids d) = {}"
      and i: "i \<notin> set (idsL ks)" "i \<notin> set (ids d)" by auto
    from i ids_appendChild_subset(2)[of p d ks] have "i \<notin> set (idsL (appendChildL p d ks))"
      by auto
    with False "1.IH"[OF False a(1) "1.prems"(2) a(2)] show ?thesis by simp
  qed
next
  case (2 p d)
  show ?case by simp
next
  case (3 p d k ks)
  from "3.prems" have k: "distinct (ids k)" "set (ids k) \<inter> set (ids d) = {}"
    and ks: "distinct (idsL ks)" "set (idsL ks) \<inter> set (ids d) = {}"
    and dj: "set (ids k) \<inter> set (idsL ks) = {}" by auto
  note ihk = "3.IH"(1)[OF k(1) "3.prems"(2) k(2)]
  note ihks = "3.IH"(2)[OF ks(1) "3.prems"(2) ks(2)]
  show ?case
  proof (cases "p \<in> set (ids k)")
    case True
    with dj have "p \<notin> set (idsL ks)" by auto
    then have same: "appendChildL p d ks = ks" by (rule appendChild_absent)
    from ids_appendChild_subset(1)[of p d k] dj ks(2)
    have "set (ids (appendChild p d k)) \<inter> set (idsL ks) = {}" by auto
    with ihk ks(1) same show ?thesis by simp
  next
    case False
    then have same: "appendChild p d k = k" by (rule appendChild_absent)
    from ids_appendChild_subset(2)[of p d ks] dj k(2)
    have "set (ids k) \<inter> set (idsL (appendChildL p d ks)) = {}" by auto
    with ihks k(1) same show ?thesis by simp
  qed
qed

lemma kidsOf_appendChild:
  "kidsOf p (appendChild p el e) = map_option (\<lambda>ks. ks @ [eid el]) (kidsOf p e)"
  "kidsOfL p (appendChildL p el ks) = map_option (\<lambda>ks. ks @ [eid el]) (kidsOfL p ks)"
  by (induction p el e and p el ks rule: appendChild_appendChildL.induct)
     (auto split: option.splits)

lemma kidsOf_present:
  "p \<in> set (ids e) \<Longrightarrow> kidsOf p e \<noteq> None"
  "p \<in> set (idsL ks) \<Longrightarrow> kidsOfL p ks \<noteq> None"
  by (induction p e and p ks rule: kidsOf_kidsOfL.induct) (auto split: option.splits)

lemma matches_ids:
  "eid ` set (matches cls e) \<subseteq> set (ids e)"
  "eid ` set (matchesL cls ks) \<subseteq> set (idsL ks)"
  by (induction cls e and cls ks rule: matches_matchesL.induct) auto

lemma querySelectorAll_appendChild:
  assumes "matches cls el = []"
  shows "map eid (querySelectorAll cls (appendChild p el e)) = map eid (querySelectorAll cls e)"
  using assms matches_appendChild(2)[OF assms, of p "kids e"]
  by (cases e) (simp add: querySelectorAll_def)

lemma querySelectorAll_removeNode:
  assumes "clean cls d e"
  shows "map eid (querySelectorAll cls (removeNode d e)) = map eid (querySelectorAll cls e)"
proof (cases e)
  case (Elem i c s ks)
  with assms have "\<forall>x \<in> set (nodesL ks). eid x = d \<longrightarrow> matches cls x = []"
    by (auto simp: clean_def list_all_iff)
  from matches_removeNode(2)[OF this] Elem show ?thesis
    by (simp add: querySelectorAll_def)
qed

lemma clean_absent: "d \<notin> set (ids e) \<Longrightarrow> clean cls d e"
  by (auto simp: clean_def list_all_iff ids_nodes)

subsection \<open>Containers\<close>

lemma domInv_D:
  assumes "domInv K w"
  shows "distinct (ids (body w))"
    and "\<And>i. i \<in> set (ids (body w)) \<Longrightarrow> i < nextId w"
    and "\<And>d. d \<in> fst ` set (roots w) \<Longrightarrow>
           d < nextId w \<and> d \<noteq> eid (body w) \<and> clean (prefixWrapper K) d (body w)"
    and "\<And>d. d \<in> set (registered w) \<Longrightarrow>
           d < nextId w \<and> (d \<in> fst ` set (roots w) \<or> d \<notin> set (ids (body w)))"
  using assms by (auto simp: domInv_def)

lemma domInv_I:
  assumes "distinct (ids (body w))"
    and "\<And>i. i \<in> set (ids (body w)) \<Longrightarrow> i < nextId w"
    and "\<And>d. d \<in> fst ` set (roots w) \<Longrightarrow>
           d < nextId w \<and> d \<noteq> eid (body w) \<and> clean (prefixWrapper K) d (body w)"
    and "\<And>d. d \<in> set (registered w) \<Longrightarrow>
           d < nextId w \<and> (d \<in> fst ` set (roots w) \<or> d \<notin> set (ids (body w)))"
  shows "domInv K w"
  using assms by (auto simp: domInv_def)

lemma eid_in_ids: "eid e \<in> set (ids e)"
  by (cases e) simp

lemma okClose_clean:
  assumes "domInv K w" and "d \<in> fst ` set (roots w) \<or> d \<notin> set (ids (body w))"
  shows "clean (prefixWrapper K) d (body w)"
  using assms domInv_D(3)[OF assms(1), of d] clean_absent[of d "body w"] by auto

lemma domInv_msgClose:
  assumes inv: "domInv K w" and ok: "d \<in> fst ` set (roots w) \<or> d \<notin> set (ids (body w))"
  shows "domInv K (msgClose d w)"
    and "d \<notin> fst ` set (roots (msgClose d w))"
    and "d \<notin> set (ids (body (msgClose d w)))"
    and "map eid (querySelectorAll (prefixWrapper K) (body (msgClose d w)))
           = map eid (querySelectorAll (prefixWrapper K) (body w))"
proof -
  let ?v = "msgClose d w"
  have ks: "fst ` set (roots ?v) = fst ` set (roots w) - {d}" by (rule msgClose_keys)
  have bv: "body ?v = removeNode d (body w)" by simp
  show gone: "d \<notin> set (ids (body ?v))"
  proof (cases "d \<in> fst ` set (roots w)")
    case True
    from domInv_D(3)[OF inv True] have "d \<noteq> eid (body w)" by simp
    then show ?thesis by (simp add: removed_not_in_ids)
  next
    case False
    with ok have "d \<notin> set (ids (body w))" by simp
    then show ?thesis by (simp add: removeNode_absent)
  qed
  show "d \<notin> fst ` set (roots ?v)" using ks by simp
  show "map eid (querySelectorAll (prefixWrapper K) (body ?v))
           = map eid (querySelectorAll (prefixWrapper K) (body w))"
    using querySelectorAll_removeNode[OF okClose_clean[OF inv ok]] by simp
  show "domInv K ?v"
  proof (rule domInv_I)
    show "distinct (ids (body ?v))"
      using domInv_D(1)[OF inv] by (simp add: distinct_removeNode)
  next
    fix i assume "i \<in> set (ids (body ?v))"
    with ids_removeNode_subset(1)[of d "body w"] have "i \<in> set (ids (body w))" by auto
    from domInv_D(2)[OF inv this] show "i < nextId ?v" by simp
  next
    fix d' assume "d' \<in> fst ` set (roots ?v)"
    with ks have "d' \<in> fst ` set (roots w)" by simp
    from domInv_D(3)[OF inv this]
    show "d' < nextId ?v \<and> d' \<noteq> eid (body ?v) \<and> clean (prefixWrapper K) d' (body ?v)"
      by (simp add: eid_removeNode clean_removeNode)
  next
    fix d' assume "d' \<in> set (registered ?v)"
    then have r: "d' \<in> set (registered w)" by (simp add: registered_def)
    from domInv_D(4)[OF inv r] have lt: "d' < nextId w"
      and c: "d' \<in> fst ` set (roots w) \<or> d' \<notin> set (ids (body w))" by simp_all
    have "d' \<in> fst ` set (roots ?v) \<or> d' \<notin> set (ids (body ?v))"
    proof (cases "d' = d")
      case True
      with gone show ?thesis by simp
    next
      case False
      with c ks ids_removeNode_subset(1)[of d "body w"] show ?thesis by auto
    qed
    with lt show "d' < nextId ?v \<and> (d' \<in> fst ` set (roots ?v) \<or> d' \<notin> set (ids (body ?v)))"
      by simp
  qed
qed

lemma domInv_cong:
  "body v = body w \<Longrightarrow> nextId v = nextId w \<Longrightarrow> map fst (roots v) = map fst (roots w)
    \<Longrightarrow> MessageList v = MessageList w \<Longrightarrow> domInv K v = domInv K w"
  by (simp add: domInv_def registered_def)

lemma keys_startDuration: "map fst (roots (startDuration d w)) = map fst (roots w)"
  using rootProps_startDuration[of d w] rootProps_keys[of w] rootProps_keys[of "startDuration d w"]
  by simp

lemma domInv_startDuration: "domInv K (startDuration d w) = domInv K w"
  by (intro domInv_cong) (simp_all add: keys_startDuration)

lemma domInv_mouseEnter: "domInv K (mouseEnter d w) = domInv K w"
  by (intro domInv_cong) simp_all

lemma containers_msgClose:
  assumes "domInv K w" and "d \<in> fst ` set (roots w) \<or> d \<notin> set (ids (body w))"
  shows "containers K (msgClose d w) = containers K w"
  using domInv_msgClose(4)[OF assms] by (simp add: containers_def)

lemma domInv_fire:
  assumes inv: "domInv K w" and ok: "owner t \<in> fst ` set (roots w)"
  shows "domInv K (fire t w) \<and> containers K (fire t w) = containers K w"
proof -
  let ?d = "owner t"
  let ?c = "w\<lparr> trace := trace w @ [CbDurationEnd ?d (Obj [(''close'', CloseOp ?d)])] \<rparr>"
  have "domInv K ?c = domInv K w" by (intro domInv_cong) simp_all
  with inv have invc: "domInv K ?c" by simp
  have okc: "?d \<in> fst ` set (roots ?c) \<or> ?d \<notin> set (ids (body ?c))" using ok by simp
  have cc: "containers K ?c = containers K w" by (simp add: containers_def)
  note one = domInv_msgClose[OF invc okc]
  have ok1: "?d \<in> fst ` set (roots (msgClose ?d ?c)) \<or> ?d \<notin> set (ids (body (msgClose ?d ?c)))"
    using one(3) by simp
  note two = domInv_msgClose[OF one(1) ok1]
  have c1: "containers K (msgClose ?d ?c) = containers K w"
    using containers_msgClose[OF invc okc] cc by simp
  have c2: "containers K (msgClose ?d (msgClose ?d ?c)) = containers K w"
    using containers_msgClose[OF one(1) ok1] c1 by simp
  show ?thesis
    using inv invc cc one(1) two(1) c1 c2 fire_cases[of t w] by auto
qed

lemma domInv_runTimers:
  "tmInv w \<Longrightarrow> domInv K w \<Longrightarrow>
     domInv K (runTimers T w) \<and> containers K (runTimers T w) = containers K w"
proof (induction T w rule: runTimers.induct)
  case (1 T w)
  show ?case
  proof (cases "nextDue T (timers w)")
    case None
    have "domInv K (w\<lparr> now := max (now w) T \<rparr>) = domInv K w"
      by (intro domInv_cong) simp_all
    with None "1.prems" show ?thesis
      by (subst (1 2) runTimers.simps) (simp add: containers_def)
  next
    case (Some t)
    let ?v = "w\<lparr> timers := filter (\<lambda>u. tid u \<noteq> tid t) (timers w), now := max (now w) (due t) \<rparr>"
    from nextDue_Some[OF Some] have t: "t \<in> set (timers w)" by simp
    from tmInv_timer_owner[OF "1.prems"(1) t] have "owner t \<in> fst ` set (roots ?v)"
      using mounted_iff[of "owner t" w] by auto
    moreover have "domInv K ?v = domInv K w" by (intro domInv_cong) simp_all
    ultimately have f: "domInv K (fire t ?v)" "containers K (fire t ?v) = containers K ?v"
      using domInv_fire[of K ?v t] "1.prems"(2) by simp_all
    have tv: "tmInv ?v"
      using "1.prems"(1) by (rule tmInv_weaken[where P = "\<lambda>u. tid u \<noteq> tid t"]) simp_all
    have cv: "containers K ?v = containers K w" by (simp add: containers_def)
    from "1.IH"[OF Some tmInv_fire[OF tv] f(1)] f(2) cv Some show ?thesis
      by (subst (1 2) runTimers.simps) simp
  qed
qed

lemma domInv_foldl_close:
  assumes "domInv K w" and "set (map (\<lambda>h. divOf (close h)) hs) \<subseteq> set (registered w)"
  shows "domInv K (foldl (\<lambda>v h. callClose (close h) v) w hs)
       \<and> containers K (foldl (\<lambda>v h. callClose (close h) v) w hs) = containers K w"
  using assms
proof (induction hs arbitrary: w)
  case Nil
  then show ?case by simp
next
  case (Cons h hs)
  obtain d where d: "close h = CloseOp d" by (cases "close h")
  with Cons.prems(2) have "d \<in> set (registered w)" by simp
  from domInv_D(4)[OF Cons.prems(1) this]
  have ok: "d \<in> fst ` set (roots w) \<or> d \<notin> set (ids (body w))" by simp
  note a = domInv_msgClose(1)[OF Cons.prems(1) ok] containers_msgClose[OF Cons.prems(1) ok]
  have "set (map (\<lambda>h. divOf (close h)) hs) \<subseteq> set (registered (msgClose d w))"
    using Cons.prems(2) by (simp add: registered_def)
  from Cons.IH[OF a(1) this] a(2) d show ?case by simp
qed

lemma domInv_closeAll:
  assumes "domInv K w"
  shows "domInv K (closeAll w) \<and> containers K (closeAll w) = containers K w"
proof -
  let ?f = "foldl (\<lambda>v h. callClose (close h) v) w (MessageList w)"
  have "domInv K ?f \<and> containers K ?f = containers K w"
    using assms by (rule domInv_foldl_close) (simp add: registered_def)
  then show ?thesis
    by (simp add: closeAll_def domInv_def registered_def containers_def)
qed

lemma clean_leaf: "clean cls d (Elem n [] st [])"
  by (simp add: clean_def)

lemma domInv_createContainer:
  assumes inv: "domInv K w" and cc: "createContainer K config w = Inr (c, w1)"
  shows "domInv K w1"
    and "containers K w1 = (if containers K w = [] then [nextId w] else containers K w)"
    and "hd (containers K w1) = c"
    and "c \<in> set (ids (body w1))"
proof -
  let ?cls = "prefixWrapper K"
  from createContainer_cases[OF cc]
  consider (old) "querySelectorAll ?cls (body w) \<noteq> []"
      "c = eid (hd (querySelectorAll ?cls (body w)))" "w1 = w"
    | (new) st where "querySelectorAll ?cls (body w) = []" "c = nextId w"
      "w1 = w\<lparr> body := appendChild (eid (body w)) (Elem (nextId w) [?cls] st []) (body w),
                nextId := nextId w + 1 \<rparr>"
    by blast
  then have "domInv K w1
     \<and> containers K w1 = (if containers K w = [] then [nextId w] else containers K w)
     \<and> hd (containers K w1) = c \<and> c \<in> set (ids (body w1))"
  proof cases
    case old
    from old(1) have ne: "containers K w \<noteq> []" by (simp add: containers_def)
    from old(1) have "hd (querySelectorAll ?cls (body w)) \<in> set (matchesL ?cls (kids (body w)))"
      by (simp add: querySelectorAll_def)
    with matches_ids(2)[of ?cls "kids (body w)"] have "c \<in> set (idsL (kids (body w)))"
      using old(2) by auto
    then have "c \<in> set (ids (body w))" by (cases "body w") simp
    with inv old ne show ?thesis by (simp add: containers_def hd_map)
  next
    case new
    obtain i cl s ks where b: "body w = Elem i cl s ks" by (cases "body w")
    let ?n = "nextId w"
    let ?el = "Elem ?n [?cls] st []"
    have bw1: "body w1 = Elem i cl s (ks @ [?el])" using new(3) b by simp
    have nw1: "nextId w1 = ?n + 1" and rw1: "roots w1 = roots w"
      and mw1: "MessageList w1 = MessageList w" using new(3) by simp_all
    from new(1) b have nomatch: "matchesL ?cls ks = []" by (simp add: querySelectorAll_def)
    have c1: "containers K w1 = [?n]" using nomatch by (simp add: containers_def querySelectorAll_def bw1)
    have c0: "containers K w = []" using nomatch b by (simp add: containers_def querySelectorAll_def)
    have fresh: "?n \<notin> set (ids (body w))" using domInv_D(2)[OF inv, of ?n] by auto
    have inv1: "domInv K w1"
    proof (rule domInv_I)
      show "distinct (ids (body w1))"
        using domInv_D(1)[OF inv] fresh by (simp add: bw1 b)
    next
      fix j assume "j \<in> set (ids (body w1))"
      then have "j = ?n \<or> j \<in> set (ids (body w))" by (auto simp: bw1 b)
      with domInv_D(2)[OF inv, of j] show "j < nextId w1" by (auto simp: nw1)
    next
      fix d assume "d \<in> fst ` set (roots w1)"
      then have d: "d \<in> fst ` set (roots w)" by (simp add: rw1)
      from domInv_D(3)[OF inv d] have lt: "d < ?n" and ne: "d \<noteq> i"
        and cl: "clean ?cls d (Elem i cl s ks)" by (simp_all add: b)
      from cl ne lt have "clean ?cls d (Elem i cl s (ks @ [?el]))"
        by (simp add: clean_def)
      with lt ne show "d < nextId w1 \<and> d \<noteq> eid (body w1) \<and> clean ?cls d (body w1)"
        by (simp add: bw1 nw1)
    next
      fix d assume "d \<in> set (registered w1)"
      then have d: "d \<in> set (registered w)" by (simp add: mw1 registered_def)
      from domInv_D(4)[OF inv d]
      show "d < nextId w1 \<and> (d \<in> fst ` set (roots w1) \<or> d \<notin> set (ids (body w1)))"
        by (auto simp: nw1 rw1 bw1 b)
    qed
    from inv1 c1 c0 new(2) show ?thesis by (simp add: bw1)
  qed
  then show "domInv K w1"
    and "containers K w1 = (if containers K w = [] then [nextId w] else containers K w)"
    and "hd (containers K w1) = c"
    and "c \<in> set (ids (body w1))" by blast+
qed

lemma keys_render: "fst ` set (roots (mountMessage ps d w)) = insert d (fst ` set (roots w))"
proof -
  have "fst ` set (rootProps (mountMessage ps d w)) = insert d (fst ` set (rootProps w))"
    using dom_update[of d ps "rootProps w"] by (simp add: rootProps_render)
  then show ?thesis by (simp add: rootProps_def image_image)
qed

lemma domInv_renderElement:
  assumes inv: "domInv K w" and r: "renderElement K th config w = Inr (p, w')"
  shows "domInv K w'"
    and "containers K w' = (if containers K w = [] then [nextId w] else containers K w)"
    and "\<exists>ks. kidsOf (hd (containers K w')) (body w')
                = Some (ks @ [divOf (close (last (MessageList w')))])"
proof -
  let ?cls = "prefixWrapper K"
  from renderElement_Inr[OF r] obtain c w1 ps where
    cc: "createContainer K config w = Inr (c, w1)" and
    w': "w' = (mountMessage ps (nextId w1)
                    (w1\<lparr> nextId := nextId w1 + 1, keyIndex := keyIndex w1 + 1 \<rparr>))
                  \<lparr> body := appendChild c (Elem (nextId w1) [] [] []) (body w1),
                    MessageList := MessageList w1 @ [\<lparr> close = CloseOp (nextId w1), key = keyIndex w1 + 1 \<rparr>] \<rparr>"
    by blast
  note c1 = domInv_createContainer[OF inv cc]
  let ?d = "nextId w1"
  let ?leaf = "Elem ?d [] [] []"
  have bw: "body w' = appendChild c ?leaf (body w1)" by (simp add: w')
  have nw: "nextId w' = ?d + 1" by (simp add: w')
  have kw: "fst ` set (roots w') = insert ?d (fst ` set (roots w1))"
    by (simp add: w' keys_render)
  have rw: "registered w' = registered w1 @ [?d]" by (simp add: w' registered_def)
  have fresh: "?d \<notin> set (ids (body w1))" using domInv_D(2)[OF c1(1), of ?d] by auto
  have sub: "set (ids (body w')) \<subseteq> insert ?d (set (ids (body w1)))"
    using ids_appendChild_subset(1)[of c ?leaf "body w1"] by (auto simp: bw)
  have nm: "matches ?cls ?leaf = []" by simp
  show cont: "containers K w' = (if containers K w = [] then [nextId w] else containers K w)"
    using querySelectorAll_appendChild[OF nm, of c "body w1"] c1(2)
    by (simp add: containers_def bw)
  have "containers K w' = containers K w1"
    using querySelectorAll_appendChild[OF nm, of c "body w1"] by (simp add: containers_def bw)
  with c1(3) have hd: "hd (containers K w') = c" by simp
  from kidsOf_present(1)[OF c1(4)] obtain ks where "kidsOf c (body w1) = Some ks" by auto
  then have "kidsOf c (body w') = Some (ks @ [?d])"
    by (simp add: bw kidsOf_appendChild)
  moreover have "divOf (close (last (MessageList w'))) = ?d" by (simp add: w')
  ultimately show "\<exists>ks. kidsOf (hd (containers K w')) (body w')
                = Some (ks @ [divOf (close (last (MessageList w')))])"
    unfolding hd by auto
  show "domInv K w'"
  proof (rule domInv_I)
    show "distinct (ids (body w'))"
      using distinct_appendChild(1)[of "body w1" ?leaf c] domInv_D(1)[OF c1(1)] fresh
      by (simp add: bw)
  next
    fix j assume "j \<in> set (ids (body w'))"
    with sub have "j = ?d \<or> j \<in> set (ids (body w1))" by auto
    with domInv_D(2)[OF c1(1), of j] show "j < nextId w'" by (auto simp: nw)
  next
    fix d assume "d \<in> fst ` set (roots w')"
    with kw consider "d = ?d" | "d \<in> fst ` set (roots w1)" by auto
    then show "d < nextId w' \<and> d \<noteq> eid (body w') \<and> clean ?cls d (body w')"
    proof cases
      case 1
      from eid_in_ids[of "body w1"] fresh have "?d \<noteq> eid (body w1)" by auto
      moreover have "clean ?cls ?d (body w')"
        unfolding bw using clean_absent[OF fresh] nm clean_leaf by (rule clean_appendChild)
      ultimately show ?thesis using 1 by (simp add: nw bw)
    next
      case 2
      from domInv_D(3)[OF c1(1) 2] have lt: "d < ?d" and ne: "d \<noteq> eid (body w1)"
        and cl: "clean ?cls d (body w1)" by simp_all
      have "clean ?cls d (body w')"
        unfolding bw using cl nm clean_leaf by (rule clean_appendChild)
      with lt ne show ?thesis by (simp add: nw bw)
    qed
  next
    fix d assume "d \<in> set (registered w')"
    with rw consider "d = ?d" | "d \<in> set (registered w1)" by auto
    then show "d < nextId w' \<and> (d \<in> fst ` set (roots w') \<or> d \<notin> set (ids (body w')))"
    proof cases
      case 1
      then show ?thesis by (simp add: nw kw)
    next
      case 2
      from domInv_D(4)[OF c1(1) 2] sub show ?thesis by (auto simp: nw kw)
    qed
  qed
qed

lemma domInv_bump:
  assumes "domInv K w"
  shows "domInv K (w\<lparr> nextId := nextId w + 1, keyIndex := k \<rparr>)"
proof (rule domInv_I)
  show "distinct (ids (body (w\<lparr> nextId := nextId w + 1, keyIndex := k \<rparr>)))"
    using domInv_D(1)[OF assms] by simp
next
  fix i assume "i \<in> set (ids (body (w\<lparr> nextId := nextId w + 1, keyIndex := k \<rparr>)))"
  then have "i \<in> set (ids (body w))" by simp
  from domInv_D(2)[OF assms this] show "i < nextId (w\<lparr> nextId := nextId w + 1, keyIndex := k \<rparr>)"
    by simp
next
  fix d assume "d \<in> fst ` set (roots (w\<lparr> nextId := nextId w + 1, keyIndex := k \<rparr>))"
  then have "d \<in> fst ` set (roots w)" by simp
  from domInv_D(3)[OF assms this]
  show "d < nextId (w\<lparr> nextId := nextId w + 1, keyIndex := k \<rparr>)
      \<and> d \<noteq> eid (body (w\<lparr> nextId := nextId w + 1, keyIndex := k \<rparr>))
      \<and> clean (prefixWrapper K) d (body (w\<lparr> nextId := nextId w + 1, keyIndex := k \<rparr>))"
    by simp
next
  fix d assume "d \<in> set (registered (w\<lparr> nextId := nextId w + 1, keyIndex := k \<rparr>))"
  then have "d \<in> set (registered w)" by (simp add: registered_def)
  from domInv_D(4)[OF assms this]
  show "d < nextId (w\<lparr> nextId := nextId w + 1, keyIndex := k \<rparr>)
      \<and> (d \<in> fst ` set (roots (w\<lparr> nextId := nextId w + 1, keyIndex := k \<rparr>))
           \<or> d \<notin> set (ids (body (w\<lparr> nextId := nextId w + 1, keyIndex := k \<rparr>))))"
    by auto
qed

lemma domInv_step:
  assumes tm: "tmInv w" and inv: "domInv K w" and ok: "okEvent w e"
  shows "domInv K (step K e w)"
    and "containers K w \<noteq> [] \<Longrightarrow> containers K (step K e w) = containers K w"
proof -
  have "domInv K (step K e w)
      \<and> (containers K w \<noteq> [] \<longrightarrow> containers K (step K e w) = containers K w)"
  proof (cases e)
    case (Create th content durationArg)
    show ?thesis
    proof (cases "factory K th content durationArg w")
      case (Inl a)
      from step_failed[OF Inl]
      consider "step K (Create th content durationArg) w = w"
        | c w1 where "createContainer K (factoryConfig content durationArg) w = Inr (c, w1)"
            "step K (Create th content durationArg) w
               = w1\<lparr> nextId := nextId w1 + 1, keyIndex := keyIndex w1 + 1 \<rparr>"
        by blast
      then have "domInv K (step K (Create th content durationArg) w)
        \<and> (containers K w \<noteq> [] \<longrightarrow>
              containers K (step K (Create th content durationArg) w) = containers K w)"
      proof cases
        case 1
        with inv show ?thesis by simp
      next
        case 2
        note c1 = domInv_createContainer(1,2)[OF inv 2(1)]
        from domInv_bump[OF c1(1), of "keyIndex w1 + 1"] c1(2) 2(2) show ?thesis
          by (simp add: containers_def)
      qed
      with Create show ?thesis by simp
    next
      case (Inr pw)
      obtain p w' where pw: "pw = (p, w')" by (cases pw)
      from Inr pw have "renderElement K th (factoryConfig content durationArg) w = Inr (p, w')"
        by (simp add: factory_def)
      from domInv_renderElement(1,2)[OF inv this] Create Inr pw show ?thesis by simp
    qed
  next
    case (Close c)
    obtain d where c: "c = CloseOp d" by (cases c)
    with ok Close have "d \<in> fst ` set (roots w) \<or> d \<notin> set (ids (body w))" by simp
    from domInv_msgClose(1)[OF inv this] containers_msgClose[OF inv this] Close c
    show ?thesis by simp
  next
    case CloseAll
    with domInv_closeAll[OF inv] show ?thesis by simp
  next
    case (MouseEnter d)
    with inv show ?thesis by (simp add: domInv_mouseEnter containers_def)
  next
    case (MouseLeave d)
    with inv show ?thesis by (simp add: mouseLeave_def domInv_startDuration containers_def)
  next
    case (Elapse n)
    with domInv_runTimers[OF tm inv, of "now w + n"] show ?thesis by (simp add: elapse_def)
  qed
  then show "domInv K (step K e w)"
    and "containers K w \<noteq> [] \<Longrightarrow> containers K (step K e w) = containers K w" by simp_all
qed

lemma domInv_run:
  assumes "tmInv w" and "domInv K w" and "okRun K evs w"
  shows "domInv K (run K evs w) \<and> tmInv (run K evs w)
       \<and> (containers K w \<noteq> [] \<longrightarrow> containers K (run K evs w) = containers K w)"
  using assms
proof (induction evs arbitrary: w)
  case Nil
  then show ?case by simp
next
  case (Cons e es)
  from Cons.prems(3) have e: "okEvent w e" and es: "okRun K es (step K e w)" by simp_all
  note s = domInv_step[OF Cons.prems(1,2) e]
  from Cons.IH[OF tmInv_step[OF Cons.prems(1)] s(1) es] s(2) show ?case by auto
qed

lemma domInv_init: "domInv K init"
  by (simp add: domInv_def init_def registered_def)

text \<open>
  C2, as claimed: one container for each pair of host and placement. Two factory calls
  on a fresh page, the first with placement \<open>'top'\<close> and the second with
  \<open>'bottom'\<close>, leave one container in the body; both messages are its children, and
  its style is the one computed for \<open>'top'\<close>.
\<close>

theorem placements_share_container_counterexample:
  "containers exampleEnv
     (run exampleEnv
       [Create Info (VObject [(''content'', VStr ''a''), (''placement'', VStr ''top'')]) VUndefined,
        Create Info (VObject [(''content'', VStr ''b''), (''placement'', VStr ''bottom'')]) VUndefined]
       init) = [1]
   \<and> kidsOf 0 (body (run exampleEnv
       [Create Info (VObject [(''content'', VStr ''a''), (''placement'', VStr ''top'')]) VUndefined,
        Create Info (VObject [(''content'', VStr ''b''), (''placement'', VStr ''bottom'')]) VUndefined]
       init)) = Some [1]
   \<and> kidsOf 1 (body (run exampleEnv
       [Create Info (VObject [(''content'', VStr ''a''), (''placement'', VStr ''top'')]) VUndefined,
        Create Info (VObject [(''content'', VStr ''b''), (''placement'', VStr ''bottom'')]) VUndefined]
       init)) = Some [2, 3]
   \<and> map estyle (querySelectorAll (prefixWrapper exampleEnv) (body (run exampleEnv
       [Create Info (VObject [(''content'', VStr ''a''), (''placement'', VStr ''top'')]) VUndefined,
        Create Info (VObject [(''content'', VStr ''b''), (''placement'', VStr ''bottom'')]) VUndefined]
       init)))
      = [[(''zIndex'', StringOf (VNum 6000)), (''left'', Lit ''50%''), (''top'', Lit ''32px'')]]"
  by code_simp

text \<open>
  C2, amended. Container resolution is idempotent for the host, whatever the
  placements. Take a page the module has produced, a factory call that succeeds, any
  run of events after it, and a second factory call that succeeds. After the first call
  there is a container: the ones that were there before, or else exactly one new one.
  The events and the second call leave the containers as they are, so the second call
  creates none; and each of the two messages is appended to the children of the same
  container, the first one in the body.
\<close>

theorem one_container_per_host:
  assumes tm: "tmInv w" and inv: "domInv K w"
    and f1: "factory K th1 content1 dur1 w = Inr (p1, w1)"
    and ok: "okRun K evs w1"
    and f2: "factory K th2 content2 dur2 (run K evs w1) = Inr (p2, w2)"
  shows "containers K w1 \<noteq> []
       \<and> containers K w1 = (if containers K w = [] then [nextId w] else containers K w)
       \<and> containers K (run K evs w1) = containers K w1
       \<and> containers K w2 = containers K w1
       \<and> (\<exists>ks. kidsOf (hd (containers K w1)) (body w1)
                  = Some (ks @ [divOf (close (last (MessageList w1)))]))
       \<and> (\<exists>ks. kidsOf (hd (containers K w1)) (body w2)
                  = Some (ks @ [divOf (close (last (MessageList w2)))]))"
proof -
  from f1 have r1: "renderElement K th1 (factoryConfig content1 dur1) w = Inr (p1, w1)"
    by (simp add: factory_def)
  from f2 have r2: "renderElement K th2 (factoryConfig content2 dur2) (run K evs w1) = Inr (p2, w2)"
    by (simp add: factory_def)
  note a = domInv_renderElement[OF inv r1]
  have tm1: "tmInv w1" using tm r1 by (rule tmInv_renderElement)
  from a(2) have ne: "containers K w1 \<noteq> []" by (simp split: if_splits)
  from domInv_run[OF tm1 a(1) ok] ne have invr: "domInv K (run K evs w1)"
    and cr: "containers K (run K evs w1) = containers K w1" by simp_all
  note b = domInv_renderElement[OF invr r2]
  from b(2) cr ne have c2: "containers K w2 = containers K w1" by simp
  from b(3) c2 have k2: "\<exists>ks. kidsOf (hd (containers K w1)) (body w2)
                  = Some (ks @ [divOf (close (last (MessageList w2)))])" by simp
  from ne a(2) cr c2 a(3) k2 show ?thesis by blast
qed

lemma topMessage_factory:
  "factory exampleEnv Info (VObject [(''content'', VStr ''a''), (''placement'', VStr ''top'')])
     VUndefined init = Inr (Resolved \<lparr>close = CloseOp 2, key = 2\<rparr>, topMessage)"
  by code_simp

lemma bottomMessage_factory:
  "factory exampleEnv Info (VObject [(''content'', VStr ''b''), (''placement'', VStr ''bottom'')])
     VUndefined (run exampleEnv [Elapse 10, Close (CloseOp 2)] topMessage)
   = Inr (Resolved \<lparr>close = CloseOp 3, key = 3\<rparr>, bottomMessage)"
  by code_simp

theorem one_container_per_host_witness:
  "tmInv init \<and> domInv exampleEnv init
   \<and> okRun exampleEnv [Elapse 10, Close (CloseOp 2)] topMessage
   \<and> containers exampleEnv init = []
   \<and> containers exampleEnv topMessage = [1]
   \<and> containers exampleEnv (run exampleEnv [Elapse 10, Close (CloseOp 2)] topMessage) = [1]
   \<and> containers exampleEnv bottomMessage = [1]
   \<and> kidsOf 1 (body topMessage) = Some [2]
   \<and> kidsOf 1 (body bottomMessage) = Some [3]"
proof -
  have h1: "tmInv init" by (simp add: tmInv_def init_def)
  have h2: "domInv exampleEnv init" by (simp add: domInv_def init_def registered_def)
  have h4: "okRun exampleEnv [Elapse 10, Close (CloseOp 2)] topMessage" by code_simp
  have c0: "containers exampleEnv init = []" by code_simp
  have n0: "nextId init = 1" by (simp add: init_def)
  have k1: "kidsOf 1 (body topMessage) = Some [2]" by code_simp
  have k2: "kidsOf 1 (body bottomMessage) = Some [3]" by code_simp
  from one_container_per_host[OF h1 h2 topMessage_factory h4 bottomMessage_factory]
  have "containers exampleEnv topMessage = [1]
      \<and> containers exampleEnv (run exampleEnv [Elapse 10, Close (CloseOp 2)] topMessage) = [1]
      \<and> containers exampleEnv bottomMessage = [1]"
    by (simp add: c0 n0)
  with h1 h2 h4 c0 k1 k2 show ?thesis by blast
qed

subsection \<open>The pages that runs of events produce\<close>

lemma invariants_run:
  assumes "cbInv w" and "tmInv w" and "domInv K w"
    and "list_all typedEvent evs" and "okRun K evs w"
  shows "cbInv (run K evs w) \<and> tmInv (run K evs w) \<and> domInv K (run K evs w)"
  using cbInv_run[OF assms(1,4)] domInv_run[OF assms(2,3,5)] by simp

lemma invariants_init_run:
  assumes "list_all typedEvent evs" and "okRun K evs init"
  shows "cbInv (run K evs init) \<and> tmInv (run K evs init) \<and> domInv K (run K evs init)"
  using invariants_run[OF cbInv_init tmInv_init domInv_init assms] .

end
